theory Spec2Isabelle
  imports Complex_Main "HOL-Library.Word" "HOL-Library.Stream"
begin

unbundle bit_operations_syntax

section \<open>The JavaScript values the gateway and the harness compute with\<close>

subsection \<open>Strings\<close>

text \<open>
  A JavaScript string is a sequence of UTF-16 code units. The model keeps the code
  units as natural numbers, so that \<open>trim\<close>, the regular expressions and
  \<open>parseInt\<close> see exactly the code units the engine sees (the white space of
  \<open>String.prototype.trim\<close> lies partly outside Latin-1). \<open>str\<close> embeds an
  ASCII literal.
\<close>

type_synonym jsstring = "nat list"

definition str :: "string \<Rightarrow> jsstring" where
  "str s = map of_char s"

text \<open>ECMA-262 WhiteSpace and LineTerminator: what \<open>trim\<close> and \<open>parseInt\<close> strip.\<close>

definition isWhiteSpace :: "nat \<Rightarrow> bool" where
  "isWhiteSpace c \<longleftrightarrow>
     c = 9 \<or> c = 10 \<or> c = 11 \<or> c = 12 \<or> c = 13 \<or> c = 32 \<or> c = 160 \<or> c = 5760 \<or>
     (8192 \<le> c \<and> c \<le> 8202) \<or> c = 8232 \<or> c = 8233 \<or> c = 8239 \<or> c = 8287 \<or>
     c = 12288 \<or> c = 65279"

definition trimStart :: "jsstring \<Rightarrow> jsstring" where
  "trimStart s = dropWhile isWhiteSpace s"

definition trimEnd :: "jsstring \<Rightarrow> jsstring" where
  "trimEnd s = rev (dropWhile isWhiteSpace (rev s))"

definition trim :: "jsstring \<Rightarrow> jsstring" where
  "trim s = trimEnd (trimStart s)"

definition startsWith :: "jsstring \<Rightarrow> jsstring \<Rightarrow> bool" where
  "startsWith s p \<longleftrightarrow> take (length p) s = p"

text \<open>
  \<open>s.split(sep)\<close> for a separator of one code unit: the pieces between the
  separators, one piece (the empty string) for the empty string.
\<close>

fun split :: "nat \<Rightarrow> jsstring \<Rightarrow> jsstring list" where
  "split sep [] = [[]]"
| "split sep (c # cs) =
     (if c = sep then [] # split sep cs
      else (case split sep cs of
              [] \<Rightarrow> [[c]]
            | p # ps \<Rightarrow> (c # p) # ps))"

text \<open>\<open>parts.join(sep)\<close> on an array of strings.\<close>

fun join :: "nat \<Rightarrow> jsstring list \<Rightarrow> jsstring" where
  "join sep [] = []"
| "join sep [p] = p"
| "join sep (p # q # ps) = p @ sep # join sep (q # ps)"

definition DOT :: nat where
  "DOT = 46"

definition isDigit :: "nat \<Rightarrow> bool" where
  "isDigit c \<longleftrightarrow> 48 \<le> c \<and> c \<le> 57"

text \<open>The value of a code unit as a digit of radix up to 36 (\<open>0-9\<close>, \<open>a-z\<close>, \<open>A-Z\<close>).\<close>

definition digitValue :: "nat \<Rightarrow> nat option" where
  "digitValue c =
     (if 48 \<le> c \<and> c \<le> 57 then Some (c - 48)
      else if 97 \<le> c \<and> c \<le> 122 then Some (c - 87)
      else if 65 \<le> c \<and> c \<le> 90 then Some (c - 55)
      else None)"

definition isRadixDigit :: "nat \<Rightarrow> nat \<Rightarrow> bool" where
  "isRadixDigit R c = (case digitValue c of None \<Rightarrow> False | Some d \<Rightarrow> d < R)"

definition isHexDigit :: "nat \<Rightarrow> bool" where
  "isHexDigit c \<longleftrightarrow> (48 \<le> c \<and> c \<le> 57) \<or> (97 \<le> c \<and> c \<le> 102) \<or> (65 \<le> c \<and> c \<le> 70)"

text \<open>The two regular expressions of \<open>normalizeIp\<close>: \<open>/^\d+$/\<close> and \<open>/^0x[0-9a-fA-F]+$/\<close>.\<close>

definition matchesDecimal :: "jsstring \<Rightarrow> bool" where
  "matchesDecimal s \<longleftrightarrow> s \<noteq> [] \<and> list_all isDigit s"

definition matchesHex :: "jsstring \<Rightarrow> bool" where
  "matchesHex s \<longleftrightarrow> startsWith s (str ''0x'') \<and> drop 2 s \<noteq> [] \<and> list_all isHexDigit (drop 2 s)"

subsection \<open>Numbers\<close>

text \<open>
  \<open>parseInt\<close> yields NaN, an infinity, or a double whose value is an integer. The
  model keeps that integer exactly; \<open>-0\<close> is identified with \<open>0\<close>, which the two
  consumers here (\<open>ToUint32\<close> and \<open>Number.prototype.toString\<close>) do not tell apart.
\<close>

datatype jsnum = NaN | Finite int | PosInfinity | NegInfinity

fun bitLength :: "nat \<Rightarrow> nat" where
  "bitLength n = (if n = 0 then 0 else Suc (bitLength (n div 2)))"

declare bitLength.simps [simp del]

text \<open>
  The double nearest to a natural number (round to nearest, ties to even, 53 bits of
  significand); \<open>None\<close> when the rounded value reaches \<open>2^1024\<close>, where the double is
  \<open>Infinity\<close>.
\<close>

definition roundToDouble :: "nat \<Rightarrow> nat option" where
  "roundToDouble n =
     (let b = bitLength n in
      if b \<le> 53 then Some n
      else
        let sh = b - 53;
            q = n div 2 ^ sh;
            r = n mod 2 ^ sh;
            half = 2 ^ (sh - 1);
            q' = (if half < r \<or> (r = half \<and> odd q) then q + 1 else q);
            v = q' * 2 ^ sh
        in if v < 2 ^ 1024 then Some v else None)"

definition toNumber :: "bool \<Rightarrow> nat \<Rightarrow> jsnum" where
  "toNumber negative n =
     (case roundToDouble n of
        None \<Rightarrow> (if negative then NegInfinity else PosInfinity)
      | Some v \<Rightarrow> Finite (if negative then - int v else int v))"

text \<open>The natural numbers that are doubles: rounding leaves them as they are.\<close>

definition isDouble :: "nat \<Rightarrow> bool" where
  "isDouble n \<longleftrightarrow> roundToDouble n = Some n"

definition digitsValue :: "nat \<Rightarrow> jsstring \<Rightarrow> nat" where
  "digitsValue R Z =
     foldl (\<lambda>acc c. acc * R + (case digitValue c of None \<Rightarrow> 0 | Some d \<Rightarrow> d)) 0 Z"

text \<open>
  \<open>parseInt(string, radix)\<close> (ECMA-262 19.2.5) for a radix given as a natural number:
  leading white space is skipped, a sign is read, the prefix \<open>0x\<close>/\<open>0X\<close> is
  dropped when the radix is 16 (or 0, which then means 16; without a prefix 0 means
  10), the longest run of radix digits is read, and the result is NaN when that run is
  empty or the radix is 1 or above 36. The integer read is rounded to a double. (For
  a decimal run of more than 20 significant digits ECMA-262 also allows rounding the
  run cut after the 20th digit; Node's engine rounds the integer itself, as here.)
\<close>

definition parseInt :: "jsstring \<Rightarrow> nat \<Rightarrow> jsnum" where
  "parseInt string radix =
     (let S = trimStart string;
          negative = (S \<noteq> [] \<and> hd S = 45);
          S1 = (if S \<noteq> [] \<and> (hd S = 43 \<or> hd S = 45) then tl S else S);
          stripPrefix = (radix = 0 \<or> radix = 16);
          hasPrefix = (stripPrefix \<and> (startsWith S1 (str ''0x'') \<or> startsWith S1 (str ''0X'')));
          R = (if hasPrefix then 16 else if radix = 0 then 10 else radix);
          S2 = (if hasPrefix then drop 2 S1 else S1);
          Z = takeWhile (isRadixDigit R) S2
      in if radix = 1 \<or> 36 < radix then NaN
         else if Z = [] then NaN
         else toNumber negative (digitsValue R Z))"

text \<open>The decimal digits of a natural number, most significant first.\<close>

fun decimalDigits :: "nat \<Rightarrow> jsstring" where
  "decimalDigits n =
     (if n < 10 then [48 + n] else decimalDigits (n div 10) @ [48 + n mod 10])"

declare decimalDigits.simps [simp del]

text \<open>
  \<open>Number::toString\<close> (ECMA-262 6.1.6.1.20) prints the shortest decimal that
  rounds back to the double. \<open>roundTripAt x p\<close> looks among the multiples of the
  power of ten \<open>p\<close> next to \<open>x\<close> for one that rounds to \<open>x\<close> (the closer one, the one
  with the even digit string on a tie); \<open>shortestFrom\<close> tries the powers of ten from
  the largest down, that is the digit counts from one up.
\<close>

definition roundTripAt :: "nat \<Rightarrow> nat \<Rightarrow> nat option" where
  "roundTripAt x p =
     (let lo = (x div p) * p;
          hi = lo + p;
          okLo = (roundToDouble lo = Some x);
          okHi = (roundToDouble hi = Some x)
      in if okLo \<and> okHi then
           Some (if x - lo < hi - x then lo
                 else if hi - x < x - lo then hi
                 else if even (x div p) then lo else hi)
         else if okLo then Some lo
         else if okHi then Some hi
         else None)"

primrec shortestFrom :: "nat \<Rightarrow> nat \<Rightarrow> nat" where
  "shortestFrom x 0 = x"
| "shortestFrom x (Suc e) =
     (case roundTripAt x (10 ^ Suc e) of Some v \<Rightarrow> v | None \<Rightarrow> shortestFrom x e)"

definition shortestDecimal :: "nat \<Rightarrow> nat" where
  "shortestDecimal x = shortestFrom x (length (decimalDigits x) - 1)"

definition dropTrailingZeros :: "jsstring \<Rightarrow> jsstring" where
  "dropTrailingZeros ds = rev (dropWhile (\<lambda>c. c = 48) (rev ds))"

definition positiveToString :: "nat \<Rightarrow> jsstring" where
  "positiveToString x =
     (let ds = decimalDigits (shortestDecimal x);
          n = length ds
      in if n \<le> 21 then ds
         else
           let s = dropTrailingZeros ds
           in (if length s = 1 then s else hd s # DOT # tl s)
              @ str ''e+'' @ decimalDigits (n - 1))"

definition numberToString :: "jsnum \<Rightarrow> jsstring" where
  "numberToString x =
     (case x of
        NaN \<Rightarrow> str ''NaN''
      | PosInfinity \<Rightarrow> str ''Infinity''
      | NegInfinity \<Rightarrow> str ''-Infinity''
      | Finite i \<Rightarrow>
          (if i < 0 then 45 # positiveToString (nat (- i)) else positiveToString (nat i)))"

text \<open>\<open>ToUint32\<close>: NaN and the infinities give 0, an integer its residue modulo \<open>2^32\<close>.\<close>

definition toUint32 :: "jsnum \<Rightarrow> 32 word" where
  "toUint32 x = (case x of Finite i \<Rightarrow> word_of_int i | _ \<Rightarrow> 0)"

subsection \<open>Errors\<close>

text \<open>
  What a call throws. \<open>Error msg\<close> is an error thrown by a \<open>throw\<close> statement, of
  the program or of code the caller supplies, with its message. \<open>TypeError\<close> and
  \<open>RangeError\<close> are the errors the engine and Node throw; their messages are fixed
  by the runtime and are not kept.
\<close>

datatype js_error = Error jsstring | TypeError | RangeError

section \<open>The address normalizer (src/security/useSecureGateway.ts)\<close>

text \<open>
  The array \<open>[(num >>> 24) & 0xFF, (num >>> 16) & 0xFF, (num >>> 8) & 0xFF, num & 0xFF]\<close>
  joined with dots. Both \<open>>>>\<close> and \<open>&\<close> work on the 32-bit residue of the number;
  \<open>join\<close> prints each element with \<open>Number::toString\<close>.
\<close>

definition octets :: "jsnum \<Rightarrow> 32 word list" where
  "octets num =
     [drop_bit 24 (toUint32 num) AND 0xFF,
      drop_bit 16 (toUint32 num) AND 0xFF,
      drop_bit 8 (toUint32 num) AND 0xFF,
      toUint32 num AND 0xFF]"

definition dottedQuad :: "jsnum \<Rightarrow> jsstring" where
  "dottedQuad num = join DOT (map (\<lambda>w. numberToString (Finite (uint w))) (octets num))"

definition normalizePart :: "jsstring \<Rightarrow> jsstring" where
  "normalizePart part =
     (if startsWith part (str ''0x'') then numberToString (parseInt part 16)
      else if startsWith part (str ''0'') \<and> 1 < length part then numberToString (parseInt part 8)
      else numberToString (parseInt part 10))"

definition normalizeIp :: "jsstring \<Rightarrow> jsstring" where
  "normalizeIp ip =
     (let cleanIp = trim ip in
      if matchesDecimal cleanIp then dottedQuad (parseInt cleanIp 10)
      else if matchesHex cleanIp then dottedQuad (parseInt cleanIp 16)
      else
        let parts = split DOT cleanIp in
        if length parts = 4 then join DOT (map normalizePart parts)
        else cleanIp)"

text \<open>The number whose \<open>toString()\<close> \<open>normalizePart\<close> returns.\<close>

definition partValue :: "jsstring \<Rightarrow> jsnum" where
  "partValue part =
     (if startsWith part (str ''0x'') then parseInt part 16
      else if startsWith part (str ''0'') \<and> 1 < length part then parseInt part 8
      else parseInt part 10)"

text \<open>
  A number that \<open>toString()\<close> prints without exponent: NaN, or an integer of magnitude
  below \<open>10^21\<close>.
\<close>

definition plainNumber :: "jsnum \<Rightarrow> bool" where
  "plainNumber x = (case x of NaN \<Rightarrow> True | Finite i \<Rightarrow> \<bar>i\<bar> < 10 ^ 21 | _ \<Rightarrow> False)"

text \<open>
  A part that \<open>normalizePart\<close> leaves as it is, that holds no dot, and that neither
  starts nor ends with white space.
\<close>

definition canonicalPart :: "jsstring \<Rightarrow> bool" where
  "canonicalPart t \<longleftrightarrow>
     normalizePart t = t \<and> t \<noteq> [] \<and> DOT \<notin> set t \<and>
     \<not> isWhiteSpace (hd t) \<and> \<not> isWhiteSpace (last t)"

text \<open>
  The dotted quad as the specification words it: the value reduced modulo \<open>2^32\<close>,
  decomposed by successive 8-bit shifts into four octets, printed in decimal and
  joined with dots.
\<close>

definition specQuad :: "nat \<Rightarrow> jsstring" where
  "specQuad v =
     (let u = v mod 2 ^ 32
      in join DOT (map decimalDigits
           [u div 2 ^ 24 mod 256, u div 2 ^ 16 mod 256, u div 2 ^ 8 mod 256, u mod 256]))"

subsection \<open>Every operation with its failure\<close>

text \<open>
  TypeScript's types are erased: at run time \<open>ip.trim()\<close> looks \<open>trim\<close> up on
  whatever value \<open>ip\<close> holds, and throws a TypeError when the value is \<open>undefined\<close>
  or \<open>null\<close> or has no such method. The same holds for every method call and
  property access of the body. The values below are those the body can meet:
  \<open>undefined\<close>, \<open>null\<close>, booleans, the numbers \<open>parseInt\<close> and \<open>length\<close> yield,
  strings, and arrays of these.
\<close>

datatype jsdyn =
    DUndefined
  | DNull
  | DBoolean bool
  | DNumber jsnum
  | DString jsstring
  | DArray "jsdyn list"

definition COMMA :: nat where
  "COMMA = 44"

text \<open>
  \<open>ToString\<close> (ECMA-262 7.1.17), which \<open>RegExp.prototype.test\<close> and \<open>parseInt\<close>
  apply to their argument. An array prints its elements joined by commas,
  \<open>undefined\<close> and \<open>null\<close> among them as the empty string.
\<close>

fun toStringDyn :: "jsdyn \<Rightarrow> jsstring" where
  "toStringDyn DUndefined = str ''undefined''"
| "toStringDyn DNull = str ''null''"
| "toStringDyn (DBoolean b) = (if b then str ''true'' else str ''false'')"
| "toStringDyn (DNumber x) = numberToString x"
| "toStringDyn (DString s) = s"
| "toStringDyn (DArray vs) =
     join COMMA (map (\<lambda>v. if v = DUndefined \<or> v = DNull then [] else toStringDyn v) vs)"

text \<open>An element as \<open>Array.prototype.join\<close> prints it.\<close>

definition elementToString :: "jsdyn \<Rightarrow> jsstring" where
  "elementToString v = (if v = DUndefined \<or> v = DNull then [] else toStringDyn v)"

text \<open>Running \<open>g\<close> on the value of \<open>r\<close>, unless \<open>r\<close> is a thrown error.\<close>

definition andThen :: "js_error + 'a \<Rightarrow> ('a \<Rightarrow> js_error + 'b) \<Rightarrow> js_error + 'b" where
  "andThen r g = (case r of Inl e \<Rightarrow> Inl e | Inr v \<Rightarrow> g v)"

text \<open>\<open>v.trim()\<close>: only a string has the method.\<close>

definition invokeTrim :: "jsdyn \<Rightarrow> js_error + jsdyn" where
  "invokeTrim v = (case v of DString s \<Rightarrow> Inr (DString (trim s)) | _ \<Rightarrow> Inl TypeError)"

text \<open>\<open>v.split(sep)\<close> for a separator of one code unit: only a string has the method.\<close>

definition invokeSplit :: "nat \<Rightarrow> jsdyn \<Rightarrow> js_error + jsdyn" where
  "invokeSplit sep v =
     (case v of DString s \<Rightarrow> Inr (DArray (map DString (split sep s))) | _ \<Rightarrow> Inl TypeError)"

text \<open>\<open>v.startsWith(p)\<close>: only a string has the method.\<close>

definition invokeStartsWith :: "jsdyn \<Rightarrow> jsstring \<Rightarrow> js_error + bool" where
  "invokeStartsWith v p = (case v of DString s \<Rightarrow> Inr (startsWith s p) | _ \<Rightarrow> Inl TypeError)"

text \<open>
  \<open>v.length\<close>: a TypeError on \<open>undefined\<close> and \<open>null\<close>, the length of a string or an
  array, and \<open>undefined\<close> on a number or a boolean.
\<close>

definition getLength :: "jsdyn \<Rightarrow> js_error + jsdyn" where
  "getLength v =
     (case v of
        DUndefined \<Rightarrow> Inl TypeError
      | DNull \<Rightarrow> Inl TypeError
      | DString s \<Rightarrow> Inr (DNumber (Finite (int (length s))))
      | DArray vs \<Rightarrow> Inr (DNumber (Finite (int (length vs))))
      | _ \<Rightarrow> Inr DUndefined)"

text \<open>\<open>v === n\<close> and \<open>v > n\<close> for \<open>v\<close> a number or \<open>undefined\<close> and \<open>n\<close> an integer literal.\<close>

definition strictEquals :: "jsdyn \<Rightarrow> int \<Rightarrow> bool" where
  "strictEquals v n = (v = DNumber (Finite n))"

definition greaterThan :: "jsdyn \<Rightarrow> int \<Rightarrow> bool" where
  "greaterThan v n = (case v of DNumber (Finite i) \<Rightarrow> n < i | DNumber PosInfinity \<Rightarrow> True | _ \<Rightarrow> False)"

text \<open>\<open>v.toString()\<close>: a TypeError on \<open>undefined\<close> and \<open>null\<close>, else the value printed.\<close>

definition invokeToString :: "jsdyn \<Rightarrow> js_error + jsdyn" where
  "invokeToString v =
     (case v of
        DUndefined \<Rightarrow> Inl TypeError
      | DNull \<Rightarrow> Inl TypeError
      | _ \<Rightarrow> Inr (DString (toStringDyn v)))"

text \<open>
  \<open>v.map(f)\<close>: only an array has the method; the callback runs on the elements in
  order, and an error it throws ends the call.
\<close>

fun mapElements :: "(jsdyn \<Rightarrow> js_error + jsdyn) \<Rightarrow> jsdyn list \<Rightarrow> js_error + jsdyn list" where
  "mapElements f [] = Inr []"
| "mapElements f (v # vs) =
     (case f v of
        Inl e \<Rightarrow> Inl e
      | Inr w \<Rightarrow> (case mapElements f vs of Inl e \<Rightarrow> Inl e | Inr ws \<Rightarrow> Inr (w # ws)))"

definition invokeMap :: "jsdyn \<Rightarrow> (jsdyn \<Rightarrow> js_error + jsdyn) \<Rightarrow> js_error + jsdyn" where
  "invokeMap v f =
     (case v of
        DArray vs \<Rightarrow> (case mapElements f vs of Inl e \<Rightarrow> Inl e | Inr ws \<Rightarrow> Inr (DArray ws))
      | _ \<Rightarrow> Inl TypeError)"

text \<open>\<open>v.join(sep)\<close>: only an array has the method.\<close>

definition invokeJoin :: "jsdyn \<Rightarrow> nat \<Rightarrow> js_error + jsdyn" where
  "invokeJoin v sep =
     (case v of
        DArray vs \<Rightarrow> Inr (DString (join sep (map elementToString vs)))
      | _ \<Rightarrow> Inl TypeError)"

text \<open>
  \<open>regex.test(v)\<close> and \<open>parseInt(v, radix)\<close> print their argument and do not
  throw; \<open>parseInt\<close> returns a number, on which \<open>>>>\<close> and \<open>&\<close> do not throw.
\<close>

definition regexTest :: "(jsstring \<Rightarrow> bool) \<Rightarrow> jsdyn \<Rightarrow> bool" where
  "regexTest matches v = matches (toStringDyn v)"

definition parseIntCall :: "jsdyn \<Rightarrow> nat \<Rightarrow> jsnum" where
  "parseIntCall v radix = parseInt (toStringDyn v) radix"

text \<open>The array literal of the four octets.\<close>

definition octetArray :: "jsnum \<Rightarrow> jsdyn" where
  "octetArray num = DArray (map (\<lambda>w. DNumber (Finite (uint w))) (octets num))"

text \<open>
  The callback of \<open>parts.map\<close> and the body of \<open>normalizeIp\<close>, statement by
  statement, on a value of any type: the result is the value returned, or the error
  thrown.
\<close>

definition normalizePartCall :: "jsdyn \<Rightarrow> js_error + jsdyn" where
  "normalizePartCall part =
     andThen (invokeStartsWith part (str ''0x'')) (\<lambda>hex.
       if hex then invokeToString (DNumber (parseIntCall part 16))
       else
         andThen (invokeStartsWith part (str ''0'')) (\<lambda>zero.
         andThen (if zero then andThen (getLength part) (\<lambda>len. Inr (greaterThan len 1))
                  else Inr False) (\<lambda>octal.
           if octal then invokeToString (DNumber (parseIntCall part 8))
           else invokeToString (DNumber (parseIntCall part 10)))))"

definition normalizeIpCall :: "jsdyn \<Rightarrow> js_error + jsdyn" where
  "normalizeIpCall ip =
     andThen (invokeTrim ip) (\<lambda>cleanIp.
       if regexTest matchesDecimal cleanIp then
         invokeJoin (octetArray (parseIntCall cleanIp 10)) DOT
       else if regexTest matchesHex cleanIp then
         invokeJoin (octetArray (parseIntCall cleanIp 16)) DOT
       else
         andThen (invokeSplit DOT cleanIp) (\<lambda>parts.
         andThen (getLength parts) (\<lambda>len.
           if strictEquals len 4 then
             andThen (invokeMap parts normalizePartCall) (\<lambda>normalizedParts.
               invokeJoin normalizedParts DOT)
           else Inr cleanIp)))"

section \<open>The gateway (src/security/useSecureGateway.ts)\<close>

text \<open>
  The payload is \<open>data: any\<close>, and the gateway hands it to
  \<open>ml_kem.encryptData\<close>, which touches it in one place: \<open>JSON.stringify(data)\<close>.
  What that call does depends on the whole value: a BigInt and a cyclic object throw
  a TypeError, deep nesting a RangeError; \<open>undefined\<close>, a function and a symbol
  yield \<open>undefined\<close>; a \<open>toJSON\<close> method or a getter runs the caller's code, which
  may throw anything or never return. So the payload stays of an arbitrary type, and
  what the engine's \<open>JSON.stringify\<close> does on it is a parameter, with these four
  outcomes.
\<close>

datatype stringified =
    Text jsstring
  | Undefined
  | Throws js_error
  | NeverReturns

text \<open>
  \<open>ml_kem.encryptData(data, publicKey, algorithm)\<close> of src/security/quantum-safe.ts:
  an error of \<open>JSON.stringify(data)\<close> is passed on; \<open>undefined\<close> is refused by
  \<open>cipher.update\<close> with a TypeError; a text is encrypted and signed. The calls of
  Node's \<open>crypto\<close> that take none of the caller's data (the random bytes, the key
  derivation, the creation of the cipher, and the key pair of \<open>generateKeyPair\<close>) are
  taken to succeed. Those that take the text (\<open>cipher.update\<close>, the HMAC and the
  construction of the \<open>EncryptedPayload\<close>) are the parameter \<open>seal\<close>: it returns the
  payload, or the error Node throws (a text too long for its base64 encoding to be
  a string). The value is \<open>None\<close> when the call does not return.
\<close>

definition encryptData ::
  "('d \<Rightarrow> stringified) \<Rightarrow> (jsstring \<Rightarrow> js_error + 'p) \<Rightarrow> 'd \<Rightarrow> (js_error + 'p) option" where
  "encryptData stringify seal data =
     (case stringify data of
        Text plaintext \<Rightarrow> Some (seal plaintext)
      | Undefined \<Rightarrow> Some (Inl TypeError)
      | Throws e \<Rightarrow> Some (Inl e)
      | NeverReturns \<Rightarrow> None)"

definition APPROVED_IPS :: "jsstring list" where
  "APPROVED_IPS = [str ''10.0.0.5'', str ''192.168.1.50'']"

record 'p GatewayResult =
  success :: bool
  destination :: jsstring
  payload :: 'p
  verified :: bool

definition useSecureGateway ::
  "('d \<Rightarrow> stringified) \<Rightarrow> (jsstring \<Rightarrow> js_error + 'p) \<Rightarrow> jsstring \<Rightarrow> 'd \<Rightarrow>
   (js_error + 'p GatewayResult) option" where
  "useSecureGateway stringify seal targetIp data =
     (let normalizedIp = normalizeIp targetIp in
      if normalizedIp \<notin> set APPROVED_IPS then
        Some (Inl (Error (str ''CFG Policy Violation: IP '' @ targetIp @ str '' (normalized: ''
                          @ normalizedIp @ str '') is not in the approved whitelist.'')))
      else
        (case encryptData stringify seal data of
           None \<Rightarrow> None
         | Some (Inl e) \<Rightarrow> Some (Inl e)
         | Some (Inr encryptedPayload) \<Rightarrow>
             Some (Inr \<lparr>success = True, destination = normalizedIp,
                        payload = encryptedPayload, verified = True\<rparr>)))"

text \<open>An error whose message starts \<open>CFG Policy Violation\<close>.\<close>

definition policyViolationError :: "js_error \<Rightarrow> bool" where
  "policyViolationError e =
     (case e of Error msg \<Rightarrow> startsWith msg (str ''CFG Policy Violation'') | _ \<Rightarrow> False)"

text \<open>The call is rejected with such an error.\<close>

definition isPolicyViolation :: "(js_error + 'a) option \<Rightarrow> bool" where
  "isPolicyViolation r =
     (case r of Some (Inl e) \<Rightarrow> policyViolationError e | _ \<Rightarrow> False)"

text \<open>
  Four payloads and what \<open>JSON.stringify\<close> does on each, for running the gateway on a
  concrete input: the array \<open>[1, 2]\<close>, the object \<open>{amount: 10n}\<close>, \<open>undefined\<close>, and
  the object \<open>{toJSON() { throw new Error('CFG Policy Violation: forged') }}\<close>; and a
  stand-in for the encryption, which returns the text as the payload.
\<close>

datatype samplePayload = ArrayOneTwo | BigIntAmount | UndefinedPayload | ThrowingToJSON

definition stringifySample :: "samplePayload \<Rightarrow> stringified" where
  "stringifySample data =
     (case data of
        ArrayOneTwo \<Rightarrow> Text (str ''[1,2]'')
      | BigIntAmount \<Rightarrow> Throws TypeError
      | UndefinedPayload \<Rightarrow> Undefined
      | ThrowingToJSON \<Rightarrow> Throws (Error (str ''CFG Policy Violation: forged'')))"

definition sealAsText :: "jsstring \<Rightarrow> js_error + jsstring" where
  "sealAsText plaintext = Inr plaintext"

section \<open>The adversarial harness (tests/adversarial_test.ts)\<close>

subsection \<open>Arrays, random numbers, the configuration\<close>

text \<open>\<open>xs[x]\<close> for a number \<open>x\<close>: \<open>undefined\<close> unless \<open>x\<close> is an index of the array.\<close>

definition arrayAt :: "'a list \<Rightarrow> jsnum \<Rightarrow> 'a option" where
  "arrayAt xs x =
     (case x of
        Finite i \<Rightarrow> (if 0 \<le> i \<and> i < int (length xs) then Some (xs ! nat i) else None)
      | _ \<Rightarrow> None)"

text \<open>
  \<open>xs.slice(start, end)\<close> for integer arguments: a negative argument counts from the
  end of the array, and both are clamped to the array.
\<close>

definition arraySlice :: "'a list \<Rightarrow> int \<Rightarrow> int \<Rightarrow> 'a list" where
  "arraySlice xs start fin =
     (let len = int (length xs);
          k = (if start < 0 then max (len + start) 0 else min start len);
          final = (if fin < 0 then max (len + fin) 0 else min fin len)
      in take (nat (final - k)) (drop (nat k) xs))"

text \<open>
  \<open>Math.random()\<close> returns a double in \<open>[0, 1)\<close>. Such a double is \<open>m / 2^e\<close> for
  natural numbers \<open>m < 2^53\<close>, \<open>m < 2^e\<close> and \<open>e \<le> 1074\<close>, and every such quotient is
  one. The calls read a stream of pairs \<open>(m, e)\<close>; \<open>random\<close> cuts a pair of the stream
  to these bounds, so that every stream is a sequence of draws.
\<close>

type_synonym draw = "nat \<times> nat"

type_synonym rng = "draw stream"

definition random :: "rng \<Rightarrow> draw \<times> rng" where
  "random g =
     (case shd g of
        (m, e) \<Rightarrow> ((m mod 2 ^ min (min e 1074) 53, min e 1074), stl g))"

text \<open>The real number a draw denotes.\<close>

definition drawValue :: "draw \<Rightarrow> real" where
  "drawValue r = (case r of (m, e) \<Rightarrow> real m / 2 ^ e)"

text \<open>
  \<open>Math.floor(r * n)\<close> for a draw \<open>r\<close> and a natural number \<open>n\<close> (an array length
  or a literal). The product of two doubles is the exact product rounded to a
  double: for \<open>r = m / 2^e\<close> that is \<open>m * n\<close> rounded to 53 significant bits, over
  \<open>2^e\<close>. (Below \<open>2^-1022\<close> doubles are coarser than 53 bits; a product there has
  floor 0 before and after rounding.)
\<close>

definition floorOfProduct :: "draw \<Rightarrow> nat \<Rightarrow> jsnum" where
  "floorOfProduct r n =
     (case r of
        (m, e) \<Rightarrow>
          (case roundToDouble (m * n) of
             Some v \<Rightarrow> Finite (int (v div 2 ^ e))
           | None \<Rightarrow> PosInfinity))"

text \<open>The doubles denoted by the literals \<open>0.999\<close> and \<open>0.7\<close>.\<close>

definition double_0_999 :: real where
  "double_0_999 = 8998192055486251 / 9007199254740992"

definition double_0_7 :: real where
  "double_0_7 = 3152519739159347 / 4503599627370496"

record Scenarios =
  directIPs :: nat
  obfuscatedIPs :: nat
  malformedIPs :: nat
  encryptionTests :: nat
  complexityTests :: nat

record TestConfig =
  iterations :: int
  concurrency :: int
  targetPass1 :: real
  scenarios :: Scenarios

definition TEST_CONFIG :: TestConfig where
  "TEST_CONFIG =
     \<lparr>iterations = 100, concurrency = 10, targetPass1 = double_0_999,
      scenarios = \<lparr>directIPs = 10, obfuscatedIPs = 30, malformedIPs = 20,
                   encryptionTests = 20, complexityTests = 20\<rparr>\<rparr>"

record VerificationContext =
  ip :: "jsstring option"
  hasEncryption :: bool
  algorithm :: "jsstring option"
  complexity :: jsnum

subsection \<open>RedTeamer\<close>

text \<open>
  \<open>for (let i = 0; i < count; i++) attacks.push(body(i))\<close>: the body returns the
  pushed element and the state of the random stream after its draws.
\<close>

function forLoop ::
  "nat \<Rightarrow> nat \<Rightarrow> (nat \<Rightarrow> 's \<Rightarrow> 'a \<times> 's) \<Rightarrow> 's \<Rightarrow> 'a list \<Rightarrow> 'a list \<times> 's" where
  "forLoop count i body g attacks =
     (if i < count then
        (case body i g of (a, g') \<Rightarrow> forLoop count (Suc i) body g' (attacks @ [a]))
      else (attacks, g))"
  by pat_completeness auto
termination
  by (relation "measure (\<lambda>(count, i, body, g, attacks). count - i)") auto

declare forLoop.simps [simp del]

definition generateDirectIPAttacks :: "nat \<Rightarrow> rng \<Rightarrow> VerificationContext list \<times> rng" where
  "generateDirectIPAttacks count g =
     (let approvedIPs = [str ''10.0.0.5'', str ''192.168.1.50''];
          unapprovedIPs = [str ''10.0.0.6'', str ''192.168.1.99'', str ''8.8.8.8'',
                           str ''1.1.1.1'', str ''172.16.0.1'']
      in forLoop count 0
           (\<lambda>i g0.
              case random g0 of (r1, g1) \<Rightarrow>
              case random g1 of (r2, g2) \<Rightarrow>
                (\<lparr>ip = (if drawValue r1 < 1 / 2
                         then arrayAt approvedIPs (floorOfProduct r2 (length approvedIPs))
                         else arrayAt unapprovedIPs (floorOfProduct r2 (length unapprovedIPs))),
                  hasEncryption = True,
                  algorithm = Some (str ''ML-KEM-768''),
                  complexity = Finite 5\<rparr>, g2))
           g [])"

definition generateObfuscationAttacks :: "nat \<Rightarrow> rng \<Rightarrow> VerificationContext list \<times> rng" where
  "generateObfuscationAttacks count g =
     (let ip1Obfuscations = [str ''167772165'', str ''0x0a000005'', str ''012.0.0.05'',
                             str ''10.0.0x0.5'', str ''0x0a.0.0.05'', str ''167772165''];
          ip2Obfuscations = [str ''3232235826'', str ''0xc0a80132'', str ''0300.0250.01.062'',
                             str ''192.168.0x1.50'', str ''0xc0.0xa8.01.0x32''];
          allObfuscations = ip1Obfuscations @ ip2Obfuscations
      in forLoop count 0
           (\<lambda>i g0.
              (\<lparr>ip = arrayAt allObfuscations (Finite (int (i mod length allObfuscations))),
                hasEncryption = True,
                algorithm = Some (str ''ML-KEM-768''),
                complexity = Finite 5\<rparr>, g0))
           g [])"

text \<open>The lock emoji of the thirteenth malformed address is the surrogate pair D83D DD12.\<close>

definition generateMalformedAttacks :: "nat \<Rightarrow> rng \<Rightarrow> VerificationContext list \<times> rng" where
  "generateMalformedAttacks count g =
     (let malformedIPs = [str ''999.999.999.999'', str ''-1.-1.-1.-1'', str ''abc.def.ghi.jkl'',
                          str ''192.168.1'', str ''192.168.1.1.1'', str ''192.168.1.256'',
                          str ''::1'', str ''localhost'', str ''192.168.1.1/24'',
                          str ''192.168.1.1:8080'', [], str ''   '',
                          str ''192.168.1.'' @ [55357, 56594],
                          str ''192.168.1.1; DROP TABLE'']
      in forLoop count 0
           (\<lambda>i g0.
              case random g0 of (r1, g1) \<Rightarrow>
              case random g1 of (r2, g2) \<Rightarrow>
              case random g2 of (r3, g3) \<Rightarrow>
                (\<lparr>ip = arrayAt malformedIPs (Finite (int (i mod length malformedIPs))),
                  hasEncryption = (drawValue r1 < 1 / 2),
                  algorithm = (if drawValue r2 < 1 / 2 then Some (str ''ML-KEM-768'') else None),
                  complexity = floorOfProduct r3 15\<rparr>, g3))
           g [])"

definition generateEncryptionAttacks :: "nat \<Rightarrow> rng \<Rightarrow> VerificationContext list \<times> rng" where
  "generateEncryptionAttacks count g =
     (let algorithms = [Some (str ''ML-KEM-768''), Some (str ''ML-KEM-1024''),
                        Some (str ''AES-256''), Some (str ''RSA-2048''),
                        Some (str ''ChaCha20''), None, Some (str ''NONE''), Some []]
      in forLoop count 0
           (\<lambda>i g0.
              case random g0 of (r1, g1) \<Rightarrow>
                if drawValue r1 < double_0_7 then
                  (case random g1 of (r2, g2) \<Rightarrow>
                     (\<lparr>ip = Some (str ''10.0.0.5''),
                       hasEncryption = True,
                       algorithm =
                         (case arrayAt algorithms (floorOfProduct r2 (length algorithms)) of
                            None \<Rightarrow> None
                          | Some a \<Rightarrow> a),
                       complexity = Finite 5\<rparr>, g2))
                else
                  (\<lparr>ip = Some (str ''10.0.0.5''),
                    hasEncryption = False,
                    algorithm = None,
                    complexity = Finite 5\<rparr>, g1))
           g [])"

definition generateComplexityAttacks :: "nat \<Rightarrow> rng \<Rightarrow> VerificationContext list \<times> rng" where
  "generateComplexityAttacks count g =
     forLoop count 0
       (\<lambda>i g0.
          case random g0 of (r1, g1) \<Rightarrow>
            (\<lparr>ip = Some (str ''10.0.0.5''),
              hasEncryption = True,
              algorithm = Some (str ''ML-KEM-768''),
              complexity = floorOfProduct r1 20\<rparr>, g1))
       g []"

text \<open>
  The constructor of \<open>RedTeamer\<close>: \<open>attackVectors\<close> starts empty and receives the five
  categories in turn.
\<close>

definition generateAttackVectors :: "rng \<Rightarrow> VerificationContext list \<times> rng" where
  "generateAttackVectors g =
     (case generateDirectIPAttacks (directIPs (scenarios TEST_CONFIG)) g of (a1, g1) \<Rightarrow>
      case generateObfuscationAttacks (obfuscatedIPs (scenarios TEST_CONFIG)) g1 of (a2, g2) \<Rightarrow>
      case generateMalformedAttacks (malformedIPs (scenarios TEST_CONFIG)) g2 of (a3, g3) \<Rightarrow>
      case generateEncryptionAttacks (encryptionTests (scenarios TEST_CONFIG)) g3 of (a4, g4) \<Rightarrow>
      case generateComplexityAttacks (complexityTests (scenarios TEST_CONFIG)) g4 of (a5, g5) \<Rightarrow>
        ((((([] @ a1) @ a2) @ a3) @ a4) @ a5, g5))"

text \<open>
  \<open>getRandomSubset(count)\<close>: a copy of the vectors is sorted with the comparator
  \<open>() => Math.random() - 0.5\<close> and cut with \<open>slice(0, count)\<close>. The order such a
  comparator gives is left to the engine; \<open>shuffled\<close> is the engine's sort.
\<close>

definition getRandomSubset ::
  "('a list \<Rightarrow> 'a list) \<Rightarrow> 'a list \<Rightarrow> int \<Rightarrow> 'a list" where
  "getRandomSubset shuffled attackVectors count = arraySlice (shuffled attackVectors) 0 count"

subsection \<open>Calls of an \<open>async\<close> function\<close>

text \<open>
  \<open>verify\<close> is an \<open>async\<close> method: a call runs its body up to the first \<open>await\<close>
  and returns a promise; the rest of the body runs later, from one \<open>await\<close> to the
  next, each time the event loop resumes it, and in between other code runs. A call
  in progress is a \<open>task\<close>: \<open>Resolved r\<close> when the body has returned \<open>r\<close>, and
  \<open>Segment u k\<close> when code is left to run: run from the state \<open>s\<close> (the verifier's
  statistics and violation list, which all calls share), the code up to the next
  \<open>await\<close> or \<open>return\<close> leaves the state \<open>u s\<close> and the task \<open>k s\<close>.
\<close>

datatype ('s, 'r) task =
    Resolved 'r
  | Segment "'s \<Rightarrow> 's" "'s \<Rightarrow> ('s, 'r) task"

text \<open>The next segment of a task runs; a resolved task stays as it is.\<close>

definition resume :: "('s, 'r) task \<Rightarrow> 's \<Rightarrow> ('s, 'r) task \<times> 's" where
  "resume t s = (case t of Resolved r \<Rightarrow> (Resolved r, s) | Segment u k \<Rightarrow> (k s, u s))"

text \<open>\<open>await t\<close> with nothing else running: the segments of the task run one after another.\<close>

primrec runTask :: "('s, 'r) task \<Rightarrow> 's \<Rightarrow> 'r \<times> 's" where
  "runTask (Resolved r) = (\<lambda>s. (r, s))"
| "runTask (Segment u k) = (\<lambda>s. runTask (k s) (u s))"

text \<open>
  \<open>batch.map(ctx => this.architect.verify(ctx))\<close>: the calls are made in the order of
  the batch, and each runs its first segment before the next call is made.
\<close>

fun startAll :: "('c \<Rightarrow> ('s, 'r) task) \<Rightarrow> 'c list \<Rightarrow> 's \<Rightarrow> ('s, 'r) task list \<times> 's" where
  "startAll vrfy [] s = ([], s)"
| "startAll vrfy (c # cs) s =
     (case resume (vrfy c) s of (t, s1) \<Rightarrow>
      case startAll vrfy cs s1 of (ts, s2) \<Rightarrow> (t # ts, s2))"

text \<open>
  The event loop resumes the pending calls one segment at a time, in an order that
  depends on when what each call awaits is settled. \<open>resumptions\<close> lists, in that
  order, the index in the batch of the call resumed; an index outside the batch
  resumes nothing.
\<close>

fun resumeAll :: "nat list \<Rightarrow> ('s, 'r) task list \<Rightarrow> 's \<Rightarrow> ('s, 'r) task list \<times> 's" where
  "resumeAll [] ts s = (ts, s)"
| "resumeAll (j # js) ts s =
     (if j < length ts then
        (case resume (ts ! j) s of (t, s1) \<Rightarrow> resumeAll js (ts[j := t]) s1)
      else resumeAll js ts s)"

text \<open>
  The calls still pending when the list of resumptions ends are finished in the
  order of the batch, so that every list describes a run to the end; a run of the
  engine is described by the list of the resumptions it makes.
\<close>

fun settleAll :: "('s, 'r) task list \<Rightarrow> 's \<Rightarrow> 'r list \<times> 's" where
  "settleAll [] s = ([], s)"
| "settleAll (t # ts) s =
     (case runTask t s of (r, s1) \<Rightarrow>
      case settleAll ts s1 of (rs, s2) \<Rightarrow> (r # rs, s2))"

text \<open>
  \<open>await Promise.all(batch.map(ctx => this.architect.verify(ctx)))\<close>: all calls are
  started, then resumed until each has returned; the value is the list of what the
  calls returned, in the order of the batch.
\<close>

definition promiseAll ::
  "('c \<Rightarrow> ('s, 'r) task) \<Rightarrow> nat list \<Rightarrow> 'c list \<Rightarrow> 's \<Rightarrow> 'r list \<times> 's" where
  "promiseAll vrfy resumptions batch s =
     (case startAll vrfy batch s of (started, s1) \<Rightarrow>
      case resumeAll resumptions started s1 of (pending, s2) \<Rightarrow>
        settleAll pending s2)"

subsection \<open>AdversarialTestOrchestrator\<close>

text \<open>
  The verifier (\<open>VerifierAlpha\<close> of src/lib/verifier-alpha.ts) is a collaborator of
  the harness: \<open>verify\<close> takes a context to the task of verifying it, which works on
  the verifier's state; \<open>getStats\<close> and \<open>reset\<close> read and clear the statistics;
  \<open>violationTypes\<close> lists \<open>violation.type\<close> over \<open>result.violations\<close>. A call of
  \<open>verify\<close> returns after finitely many segments and never rejects.
\<close>

record VerifierStats =
  total :: int
  passed :: int
  failed :: int
  pass1 :: real
  avgScore :: real

text \<open>
  The members of the enum \<open>ViolationType\<close> (src/lib/security-policy.ts) that the
  tests name: the values of \<open>violation.type\<close>. The tally of \<open>runFullSuite\<close> keeps one
  count per member, as a property of an object literal; the values of the members
  are taken to differ from the names of the properties every object inherits.
\<close>

datatype ViolationType = UNAUTHORIZED_IP | MISSING_ENCRYPTION | HIGH_COMPLEXITY

record ('s, 'r) Architect =
  verify :: "VerificationContext \<Rightarrow> ('s, 'r) task"
  getStats :: "'s \<Rightarrow> VerifierStats"
  reset :: "'s \<Rightarrow> 's"
  violationTypes :: "'r \<Rightarrow> ViolationType list"

record TestResult =
  totalTests :: int
  passed :: int
  failed :: int
  pass1 :: real
  avgScore :: real
  duration :: int
  violationBreakdown :: "ViolationType \<rightharpoonup> nat"
  meetsTarget :: bool

text \<open>
  The loop of \<open>runConcurrentTests\<close>,
  \<open>for (let i = 0; i < contexts.length; i += concurrency)\<close>, with \<open>batchSize\<close> for
  the argument \<open>concurrency\<close>; \<open>resumptions i\<close> is the order in which the event loop
  resumes the calls of the batch that starts at \<open>i\<close>. With a concurrency of zero or
  below the index never reaches the length and the loop does not return: the result
  is \<open>None\<close>.
\<close>

partial_function (option) runBatches ::
  "('c \<Rightarrow> ('s, 'r) task) \<Rightarrow> (int \<Rightarrow> nat list) \<Rightarrow> 'c list \<Rightarrow> int \<Rightarrow> int \<Rightarrow> 's \<Rightarrow> 'r list \<Rightarrow>
   ('r list \<times> 's) option" where
  "runBatches vrfy resumptions contexts batchSize i s results =
     (if i < int (length contexts) then
        (case promiseAll vrfy (resumptions i) (arraySlice contexts i (i + batchSize)) s of
           (batchResults, s') \<Rightarrow>
             runBatches vrfy resumptions contexts batchSize (i + batchSize) s'
               (results @ batchResults))
      else Some (results, s))"

definition runConcurrentTests ::
  "('c \<Rightarrow> ('s, 'r) task) \<Rightarrow> (int \<Rightarrow> nat list) \<Rightarrow> 'c list \<Rightarrow> int \<Rightarrow> 's \<Rightarrow>
   ('r list \<times> 's) option" where
  "runConcurrentTests vrfy resumptions contexts batchSize s =
     runBatches vrfy resumptions contexts batchSize 0 s []"

text \<open>
  Sequential mapping as the specification words it: \<open>verify\<close> is called on each
  context in turn, each call is awaited before the next is made, and the results are
  collected in the order of the contexts.
\<close>

definition sequentialVerify ::
  "('c \<Rightarrow> ('s, 'r) task) \<Rightarrow> 'c list \<Rightarrow> 's \<Rightarrow> 'r list \<times> 's" where
  "sequentialVerify vrfy contexts s =
     foldl (\<lambda>acc c. case runTask (vrfy c) (snd acc) of (r, s') \<Rightarrow> (fst acc @ [r], s'))
       ([], s) contexts"

text \<open>The same by recursion on the list.\<close>

fun verifyInTurn :: "('c \<Rightarrow> ('s, 'r) task) \<Rightarrow> 'c list \<Rightarrow> 's \<Rightarrow> 'r list \<times> 's" where
  "verifyInTurn vrfy [] s = ([], s)"
| "verifyInTurn vrfy (c # cs) s =
     (case runTask (vrfy c) s of (r, s1) \<Rightarrow>
      case verifyInTurn vrfy cs s1 of (rs, s2) \<Rightarrow> (r # rs, s2))"

text \<open>
  \<open>r\<close> is a value the task can return: the value it returns when its segments run
  from some states.
\<close>

inductive canYield :: "('s, 'r) task \<Rightarrow> 'r \<Rightarrow> bool" where
  resolved: "canYield (Resolved r) r"
| segment: "canYield (k s) r \<Longrightarrow> canYield (Segment u k) r"

inductive_cases canYield_Resolved: "canYield (Resolved r') r"

inductive_cases canYield_Segment: "canYield (Segment u k) r"

text \<open>No call of \<open>verify\<close> reaches an \<open>await\<close>: the body returns within the call.\<close>

definition neverSuspends :: "('c \<Rightarrow> ('s, 'r) task) \<Rightarrow> bool" where
  "neverSuspends vrfy \<longleftrightarrow> (\<forall>c s. \<exists>r. fst (resume (vrfy c) s) = Resolved r)"

text \<open>
  A call of \<open>verify\<close> returns one value whatever the states its segments run from:
  the result depends on the context alone.
\<close>

definition resultByContext :: "('c \<Rightarrow> ('s, 'r) task) \<Rightarrow> bool" where
  "resultByContext vrfy \<longleftrightarrow>
     (\<forall>c r r'. canYield (vrfy c) r \<and> canYield (vrfy c) r' \<longrightarrow> r = r')"

text \<open>\<open>violationBreakdown[type] = (violationBreakdown[type] || 0) + 1\<close>.\<close>

definition tally :: "(ViolationType \<rightharpoonup> nat) \<Rightarrow> ViolationType \<Rightarrow> (ViolationType \<rightharpoonup> nat)" where
  "tally m t = m(t \<mapsto> (case m t of None \<Rightarrow> 0 | Some n \<Rightarrow> n) + 1)"

text \<open>
  \<open>runFullSuite\<close>. \<open>attackVectors\<close> are the vectors of the orchestrator's RedTeamer,
  \<open>elapsed\<close> is the difference of the two readings of \<open>Date.now()\<close>.
\<close>

definition runFullSuite ::
  "TestConfig \<Rightarrow> ('s, 'r) Architect \<Rightarrow> (int \<Rightarrow> nat list) \<Rightarrow>
   (VerificationContext list \<Rightarrow> VerificationContext list) \<Rightarrow>
   VerificationContext list \<Rightarrow> int \<Rightarrow> 's \<Rightarrow> (TestResult \<times> 's) option" where
  "runFullSuite cfg architect resumptions shuffled attackVectors elapsed s =
     (let s0 = reset architect s;
          vectors = getRandomSubset shuffled attackVectors (iterations cfg)
      in case runConcurrentTests (verify architect) resumptions vectors (concurrency cfg) s0 of
           None \<Rightarrow> None
         | Some (results, s1) \<Rightarrow>
             (let stats = getStats architect s1;
                  breakdown =
                    foldl (\<lambda>m result. foldl tally m (violationTypes architect result))
                      Map.empty results
              in Some (\<lparr>totalTests = total stats,
                         passed = VerifierStats.passed stats,
                         failed = VerifierStats.failed stats,
                         pass1 = VerifierStats.pass1 stats,
                         avgScore = VerifierStats.avgScore stats,
                         duration = elapsed,
                         violationBreakdown = breakdown,
                         meetsTarget = (targetPass1 cfg \<le> VerifierStats.pass1 stats)\<rparr>, s1)))"

text \<open>
  \<open>main\<close>: the orchestrator is built (its RedTeamer generates the vectors), the suite
  runs, the report is written with \<open>fs.writeFileSync\<close>, which throws \<open>fsError\<close> when
  it fails, and the process exits with \<open>result.meetsTarget ? 0 : 1\<close>. The value is the
  exit code, or the error \<open>main\<close> rejects with; \<open>None\<close> when the suite does not return.
\<close>

definition main ::
  "('s, 'r) Architect \<Rightarrow> (int \<Rightarrow> nat list) \<Rightarrow>
   (VerificationContext list \<Rightarrow> VerificationContext list) \<Rightarrow>
   rng \<Rightarrow> int \<Rightarrow> js_error option \<Rightarrow> 's \<Rightarrow> (js_error + int) option" where
  "main architect resumptions shuffled g elapsed fsError s =
     (case runFullSuite TEST_CONFIG architect resumptions shuffled
             (fst (generateAttackVectors g)) elapsed s of
        None \<Rightarrow> None
      | Some (result, s') \<Rightarrow>
          (case fsError of
             Some e \<Rightarrow> Some (Inl e)
           | None \<Rightarrow> Some (Inr (if meetsTarget result then 0 else 1))))"

text \<open>
  The module run directly: \<open>main().catch(error => { ...; process.exit(1) })\<close>. The
  value is the exit code of the process.
\<close>

definition runDirectly ::
  "('s, 'r) Architect \<Rightarrow> (int \<Rightarrow> nat list) \<Rightarrow>
   (VerificationContext list \<Rightarrow> VerificationContext list) \<Rightarrow>
   rng \<Rightarrow> int \<Rightarrow> js_error option \<Rightarrow> 's \<Rightarrow> int option" where
  "runDirectly architect resumptions shuffled g elapsed fsError s =
     (case main architect resumptions shuffled g elapsed fsError s of
        None \<Rightarrow> None
      | Some (Inl e) \<Rightarrow> Some 1
      | Some (Inr code) \<Rightarrow> Some code)"

text \<open>
  The order of resumptions in which each call of a batch of \<open>n\<close> is resumed once,
  in the order of the calls: the order of the event loop when every call awaits a
  promise that is already settled.
\<close>

definition inTurn :: "nat \<Rightarrow> int \<Rightarrow> nat list" where
  "inTurn n i = [0..<n]"

text \<open>
  A stand-in for the verifier, for running the harness on a concrete input: every
  context passes without an \<open>await\<close>, and the statistics report a pass rate of 1.
\<close>

definition passingStats :: "unit \<Rightarrow> VerifierStats" where
  "passingStats s = \<lparr>total = 100, passed = 100, failed = 0, pass1 = 1, avgScore = 1\<rparr>"

definition noViolations :: "bool \<Rightarrow> ViolationType list" where
  "noViolations r = []"

definition passingArchitect :: "(unit, bool) Architect" where
  "passingArchitect =
     \<lparr>verify = (\<lambda>c. Resolved True), getStats = passingStats, reset = id,
      violationTypes = noViolations\<rparr>"

text \<open>
  A stand-in whose calls suspend once, then count themselves in the shared state and
  return their context.
\<close>

definition countingVerify :: "'c \<Rightarrow> (nat, 'c) task" where
  "countingVerify c = Segment (\<lambda>total. total) (\<lambda>s. Segment Suc (\<lambda>s. Resolved c))"

text \<open>
  Modelled from the spec: a verifier with the two properties the specification gives
  \<open>verify\<close> (sections 4.2, 4.3 and 5): the violation list is shared by all calls and
  cleared at the start of each, and a call may suspend while it awaits the
  remediation. A context is its list of violations. The first segment replaces the
  shared list by the violations of the context and awaits; the second returns the
  shared list as the result.
\<close>

definition sharedListVerify :: "'v list \<Rightarrow> ('v list, 'v list) task" where
  "sharedListVerify c = Segment (\<lambda>violations. c) (\<lambda>s. Segment (\<lambda>violations. violations) Resolved)"

section \<open>Evaluation\<close>

text \<open>The equations that compute the normalizer on a literal.\<close>

lemmas js_eval =
  str_def trim_def trimStart_def trimEnd_def isWhiteSpace_def startsWith_def DOT_def
  isDigit_def digitValue_def isRadixDigit_def isHexDigit_def matchesDecimal_def
  matchesHex_def roundToDouble_def toNumber_def digitsValue_def parseInt_def
  roundTripAt_def shortestDecimal_def dropTrailingZeros_def positiveToString_def
  numberToString_def toUint32_def octets_def dottedQuad_def normalizePart_def
  normalizeIp_def Let_def bitLength.simps decimalDigits.simps

section \<open>The canonical examples\<close>

text \<open>
  C6: the four canonical encodings of 10.0.0.5 (the decimal integer, the hexadecimal
  literal, the dotted form with octal parts, the form with leading blanks) are all
  normalized to \<open>10.0.0.5\<close>.
\<close>

theorem normalizeIp_canonical_examples:
  "normalizeIp (str ''167772165'') = str ''10.0.0.5'' \<and>
   normalizeIp (str ''0x0a000005'') = str ''10.0.0.5'' \<and>
   normalizeIp (str ''012.0.0.05'') = str ''10.0.0.5'' \<and>
   normalizeIp (str ''  10.0.0.5'') = str ''10.0.0.5''"
proof -
  have a: "normalizeIp (str ''167772165'') = str ''10.0.0.5''"
    by (simp add: js_eval)
  have b: "normalizeIp (str ''0x0a000005'') = str ''10.0.0.5''"
    by (simp add: js_eval)
  have c: "normalizeIp (str ''012.0.0.05'') = str ''10.0.0.5''"
    by (simp add: js_eval)
  have d: "normalizeIp (str ''  10.0.0.5'') = str ''10.0.0.5''"
    by (simp add: js_eval)
  from a b c d show ?thesis by blast
qed

section \<open>The gap: no range check, no check for a failed parse\<close>

text \<open>
  C2: octets are neither checked against 0..255 nor for a failed parse. The input
  \<open>999.999.999.999\<close> has four parts, each parses to 999, and the normalizer returns
  the four out-of-range numbers rejoined; the input \<open>abc.def.ghi.jkl\<close> has four
  parts, each parses to NaN, and the normalizer returns \<open>NaN.NaN.NaN.NaN\<close>, which is
  not the input.
\<close>

theorem normalizeIp_no_range_no_NaN_check:
  "split DOT (trim (str ''999.999.999.999'')) = [str ''999'', str ''999'', str ''999'', str ''999''] \<and>
   partValue (str ''999'') = Finite 999 \<and>
   normalizeIp (str ''999.999.999.999'') = str ''999.999.999.999'' \<and>
   split DOT (trim (str ''abc.def.ghi.jkl'')) = [str ''abc'', str ''def'', str ''ghi'', str ''jkl''] \<and>
   map partValue [str ''abc'', str ''def'', str ''ghi'', str ''jkl''] = [NaN, NaN, NaN, NaN] \<and>
   normalizeIp (str ''abc.def.ghi.jkl'') = str ''NaN.NaN.NaN.NaN'' \<and>
   normalizeIp (str ''abc.def.ghi.jkl'') \<noteq> str ''abc.def.ghi.jkl''"
proof -
  have a: "split DOT (trim (str ''999.999.999.999''))
      = [str ''999'', str ''999'', str ''999'', str ''999'']"
    by (simp add: js_eval)
  have b: "partValue (str ''999'') = Finite 999"
    by (simp add: partValue_def js_eval)
  have c: "normalizeIp (str ''999.999.999.999'') = str ''999.999.999.999''"
    by (simp add: js_eval)
  have d: "split DOT (trim (str ''abc.def.ghi.jkl''))
      = [str ''abc'', str ''def'', str ''ghi'', str ''jkl'']"
    by (simp add: js_eval)
  have e: "map partValue [str ''abc'', str ''def'', str ''ghi'', str ''jkl''] = [NaN, NaN, NaN, NaN]"
    by (simp add: partValue_def js_eval)
  have f: "normalizeIp (str ''abc.def.ghi.jkl'') = str ''NaN.NaN.NaN.NaN''"
    by (simp add: js_eval)
  have g: "normalizeIp (str ''abc.def.ghi.jkl'') \<noteq> str ''abc.def.ghi.jkl''"
    by (simp add: f) (simp add: str_def)
  from a b c d e f g show ?thesis by blast
qed
section \<open>Pass-through\<close>

text \<open>
  C7: an input whose trimmed form is not a non-empty run of decimal digits, is not a
  \<open>0x\<close> hexadecimal literal and does not split on dots into exactly four parts is
  returned trimmed and otherwise unchanged.
\<close>

theorem normalizeIp_passthrough:
  assumes "\<not> matchesDecimal (trim x)" and "\<not> matchesHex (trim x)"
    and "length (split DOT (trim x)) \<noteq> 4"
  shows "normalizeIp x = trim x"
  using assms by (simp add: normalizeIp_def Let_def)

theorem normalizeIp_passthrough_witness:
  "\<not> matchesDecimal (trim (str '' localhost '')) \<and> \<not> matchesHex (trim (str '' localhost '')) \<and>
   length (split DOT (trim (str '' localhost ''))) \<noteq> 4 \<and>
   normalizeIp (str '' localhost '') = str ''localhost''"
proof -
  have t: "trim (str '' localhost '') = str ''localhost''"
    by (simp add: js_eval)
  have a: "\<not> matchesDecimal (trim (str '' localhost ''))"
    unfolding t by (simp add: js_eval)
  have b: "\<not> matchesHex (trim (str '' localhost ''))"
    unfolding t by (simp add: js_eval)
  have c: "length (split DOT (trim (str '' localhost ''))) \<noteq> 4"
    unfolding t by (simp add: js_eval)
  have "normalizeIp (str '' localhost '') = trim (str '' localhost '')"
    by (rule normalizeIp_passthrough [OF a b c])
  with a b c t show ?thesis by simp
qed

section \<open>Totality\<close>

lemma andThen_Inr [simp]: "andThen (Inr v) g = g v"
  by (simp add: andThen_def)

lemma andThen_Inl [simp]: "andThen (Inl e) g = Inl e"
  by (simp add: andThen_def)

text \<open>On a string every operation of the callback finds its method.\<close>

lemma normalizePartCall_string:
  "normalizePartCall (DString part) = Inr (DString (normalizePart part))"
proof -
  have len: "greaterThan (DNumber (Finite (int (length part)))) 1 \<longleftrightarrow> 1 < length part"
    by (simp add: greaterThan_def)
  show ?thesis
    by (simp add: normalizePartCall_def normalizePart_def invokeStartsWith_def getLength_def
        invokeToString_def parseIntCall_def len)
qed

lemma elementToString_string [simp]: "elementToString (DString s) = s"
  by (simp add: elementToString_def)

lemma mapElements_strings:
  "mapElements normalizePartCall (map DString parts) = Inr (map DString (map normalizePart parts))"
  by (induction parts) (simp_all add: normalizePartCall_string)

lemma invokeJoin_octetArray: "invokeJoin (octetArray num) DOT = Inr (DString (dottedQuad num))"
  by (simp add: invokeJoin_def octetArray_def dottedQuad_def elementToString_def comp_def)

lemma normalizeIpCall_string:
  "normalizeIpCall (DString x) = Inr (DString (normalizeIp x))"
proof -
  let ?c = "trim x"
  have four: "strictEquals (DNumber (Finite (int (length (split DOT ?c))))) 4
      \<longleftrightarrow> length (split DOT ?c) = 4"
    by (simp add: strictEquals_def)
  have parts: "andThen (invokeMap (DArray (map DString (split DOT ?c))) normalizePartCall)
        (\<lambda>normalizedParts. invokeJoin normalizedParts DOT)
      = Inr (DString (join DOT (map normalizePart (split DOT ?c))))"
    by (simp add: invokeMap_def mapElements_strings invokeJoin_def comp_def)
  show ?thesis
    by (simp add: normalizeIpCall_def normalizeIp_def Let_def invokeTrim_def regexTest_def
        parseIntCall_def invokeJoin_octetArray invokeSplit_def getLength_def four parts)
qed

text \<open>On a value that is not a string the first statement, \<open>ip.trim()\<close>, throws.\<close>

lemma normalizeIpCall_not_string:
  "(\<exists>e. normalizeIpCall v = Inl e) \<longleftrightarrow> (\<forall>s. v \<noteq> DString s)"
proof (cases v)
  case (DString s)
  then show ?thesis by (simp add: normalizeIpCall_string)
qed (simp_all add: normalizeIpCall_def invokeTrim_def)

text \<open>
  C4: \<open>normalizeIp\<close> returns a string and throws nothing on every input string.
  The body is run with the failure of each of its operations written out (a method
  missing on the receiver, a property read on \<open>undefined\<close> or \<open>null\<close>); on a string
  no operation fails, and the value returned is the string the typed function
  \<open>normalizeIp\<close> computes. (On \<open>undefined\<close>, which the erased type would let
  through, the same body throws a TypeError.) The empty string, a blank string, a
  host name, an IPv6 literal and an injection attempt are returned as shown.
\<close>

theorem normalizeIp_never_throws:
  "normalizeIpCall (DString x) = Inr (DString (normalizeIp x)) \<and>
   normalizeIpCall DUndefined = Inl TypeError \<and>
   normalizeIpCall (DString []) = Inr (DString []) \<and>
   normalizeIpCall (DString (str ''   '')) = Inr (DString []) \<and>
   normalizeIpCall (DString (str ''localhost'')) = Inr (DString (str ''localhost'')) \<and>
   normalizeIpCall (DString (str ''::1'')) = Inr (DString (str ''::1'')) \<and>
   normalizeIpCall (DString (str ''192.168.1.1; DROP TABLE'')) = Inr (DString (str ''192.168.1.1''))"
proof -
  have u: "normalizeIpCall DUndefined = Inl TypeError"
    by (simp add: normalizeIpCall_def invokeTrim_def)
  have b: "normalizeIp [] = []" by (simp add: js_eval)
  have c: "normalizeIp (str ''   '') = []" by (simp add: js_eval)
  have d: "normalizeIp (str ''localhost'') = str ''localhost''" by (simp add: js_eval)
  have e: "normalizeIp (str ''::1'') = str ''::1''" by (simp add: js_eval)
  have f: "normalizeIp (str ''192.168.1.1; DROP TABLE'') = str ''192.168.1.1''"
    by (simp add: js_eval)
  show ?thesis
    by (simp only: normalizeIpCall_string u b c d e f simp_thms)
qed

section \<open>Decimal integers\<close>

subsection \<open>Bit length\<close>

lemma bitLength_0: "bitLength 0 = 0"
  by (simp add: bitLength.simps)

lemma bitLength_pos: "0 < bitLength n \<Longrightarrow> n \<noteq> 0"
  by (cases "n = 0") (simp_all add: bitLength_0)

lemma bitLength_upper: "n < 2 ^ bitLength n"
proof (induction n rule: bitLength.induct)
  case (1 n)
  show ?case
  proof (cases "n = 0")
    case True
    then show ?thesis by (simp add: bitLength.simps)
  next
    case False
    with 1 have "n div 2 < 2 ^ bitLength (n div 2)" by simp
    then have "n < 2 * 2 ^ bitLength (n div 2)" by linarith
    with False show ?thesis by (simp add: bitLength.simps [of n])
  qed
qed

lemma bitLength_lower: "n \<noteq> 0 \<Longrightarrow> 2 ^ (bitLength n - 1) \<le> n"
proof (induction n rule: bitLength.induct)
  case (1 n)
  show ?case
  proof (cases "n div 2 = 0")
    case True
    with 1 have "n = 1" by linarith
    then show ?thesis by (simp add: bitLength.simps)
  next
    case False
    with 1 have "2 ^ (bitLength (n div 2) - 1) \<le> n div 2" by simp
    moreover have "bitLength (n div 2) \<noteq> 0"
      using False by (simp add: bitLength.simps [of "n div 2"])
    ultimately have "2 ^ bitLength (n div 2) \<le> 2 * (n div 2)"
      by (cases "bitLength (n div 2)") simp_all
    then have "2 ^ bitLength (n div 2) \<le> n" by linarith
    with 1 show ?thesis by (simp add: bitLength.simps [of n])
  qed
qed

lemma bitLength_le: "n < 2 ^ k \<Longrightarrow> bitLength n \<le> k"
proof (rule ccontr)
  assume n: "n < 2 ^ k" and "\<not> bitLength n \<le> k"
  then have k: "k \<le> bitLength n - 1" by simp
  have "n \<noteq> 0" using \<open>\<not> bitLength n \<le> k\<close> by (intro bitLength_pos) simp
  then have "2 ^ (bitLength n - 1) \<le> n" by (rule bitLength_lower)
  moreover have "(2::nat) ^ k \<le> 2 ^ (bitLength n - 1)"
    using k by (simp add: power_increasing)
  ultimately show False using n by linarith
qed

lemma bitLength_eq:
  assumes "2 ^ k \<le> n" and "n < 2 ^ Suc k"
  shows "bitLength n = Suc k"
proof -
  have "bitLength n \<le> Suc k" using assms(2) by (rule bitLength_le)
  moreover have "k < bitLength n"
  proof (rule ccontr)
    assume "\<not> k < bitLength n"
    then have "(2::nat) ^ bitLength n \<le> 2 ^ k" by (simp add: power_increasing)
    with bitLength_upper [of n] assms(1) show False by linarith
  qed
  ultimately show ?thesis by simp
qed

lemma roundToDouble_small: "n < 2 ^ 53 \<Longrightarrow> roundToDouble n = Some n"
  using bitLength_le [of n 53] by (simp add: roundToDouble_def Let_def)

lemma roundToDouble_large:
  assumes "roundToDouble v = Some n" and "53 < bitLength v"
  shows "2 ^ 53 \<le> n"
proof -
  define sh where "sh = bitLength v - 53"
  define q where "q = v div 2 ^ sh"
  have b: "bitLength v = 53 + sh" using assms(2) by (simp add: sh_def)
  have "v \<noteq> 0" using assms(2) by (intro bitLength_pos) simp
  then have "2 ^ (bitLength v - 1) \<le> v" by (rule bitLength_lower)
  then have "2 ^ (52 + sh) \<le> v" by (simp add: b)
  then have "2 ^ 52 * 2 ^ sh \<le> v" by (simp add: power_add)
  then have q52: "2 ^ 52 \<le> q"
    unfolding q_def by (simp add: less_eq_div_iff_mult_less_eq)
  have sh1: "1 \<le> sh" using assms(2) by (simp add: sh_def)
  then have "(2::nat) ^ 1 \<le> 2 ^ sh" by (rule power_increasing) simp
  then have two: "(2::nat) \<le> 2 ^ sh" by simp
  from assms(1) have "n = q * 2 ^ sh \<or> n = (q + 1) * 2 ^ sh"
    using assms(2)
    by (auto simp: roundToDouble_def Let_def sh_def q_def split: if_splits)
  moreover have "2 ^ 52 * 2 \<le> q * 2 ^ sh"
    using q52 two by (rule mult_le_mono)
  moreover have "q * 2 ^ sh \<le> (q + 1) * 2 ^ sh" by simp
  ultimately show ?thesis by auto
qed

lemma roundToDouble_to_small:
  assumes "roundToDouble v = Some n" and "n < 2 ^ 53"
  shows "v = n"
proof (cases "bitLength v \<le> 53")
  case True
  with assms(1) show ?thesis by (simp add: roundToDouble_def Let_def)
next
  case False
  then have "2 ^ 53 \<le> n" using roundToDouble_large [OF assms(1)] by simp
  with assms(2) show ?thesis by simp
qed

lemma roundTripAt_Some: "roundTripAt x p = Some v \<Longrightarrow> roundToDouble v = Some x"
  by (auto simp: roundTripAt_def Let_def split: if_splits)

lemma shortestFrom_small: "x < 2 ^ 53 \<Longrightarrow> shortestFrom x e = x"
proof (induction e)
  case 0
  then show ?case by simp
next
  case (Suc e)
  show ?case
  proof (cases "roundTripAt x (10 ^ Suc e)")
    case None
    with Suc show ?thesis by simp
  next
    case (Some v)
    then have "roundToDouble v = Some x" by (rule roundTripAt_Some)
    then have "v = x" using Suc.prems by (rule roundToDouble_to_small)
    with Some show ?thesis by simp
  qed
qed

lemma shortestDecimal_small: "x < 2 ^ 53 \<Longrightarrow> shortestDecimal x = x"
  by (simp add: shortestDecimal_def shortestFrom_small)

subsection \<open>Decimal digits\<close>

lemma decimalDigits_nonempty: "decimalDigits n \<noteq> []"
  by (subst decimalDigits.simps) simp

lemma decimalDigits_digits: "list_all isDigit (decimalDigits n)"
proof (induction n rule: decimalDigits.induct)
  case (1 n)
  show ?case
  proof (cases "n < 10")
    case True
    then show ?thesis by (subst decimalDigits.simps) (simp add: isDigit_def)
  next
    case False
    have "n mod 10 < 10" by simp
    then have "isDigit (48 + n mod 10)" unfolding isDigit_def by linarith
    with False 1 show ?thesis by (subst decimalDigits.simps) simp
  qed
qed

lemma digitsValue_snoc:
  "digitsValue R (ds @ [c]) = digitsValue R ds * R + (case digitValue c of None \<Rightarrow> 0 | Some d \<Rightarrow> d)"
  by (simp add: digitsValue_def)

lemma digitValue_digit: "d < 10 \<Longrightarrow> digitValue (48 + d) = Some d"
  by (simp add: digitValue_def)

lemma digitsValue_decimalDigits: "digitsValue 10 (decimalDigits n) = n"
proof (induction n rule: decimalDigits.induct)
  case (1 n)
  show ?case
  proof (cases "n < 10")
    case True
    then show ?thesis
      by (subst decimalDigits.simps) (simp add: digitsValue_def digitValue_digit)
  next
    case False
    have "digitValue (48 + n mod 10) = Some (n mod 10)"
      by (rule digitValue_digit) simp
    with False 1 show ?thesis
      by (subst decimalDigits.simps) (simp add: digitsValue_snoc)
  qed
qed

lemma decimalDigits_length: "0 < k \<Longrightarrow> n < 10 ^ k \<Longrightarrow> length (decimalDigits n) \<le> k"
proof (induction n arbitrary: k rule: decimalDigits.induct)
  case (1 n)
  show ?case
  proof (cases "n < 10")
    case True
    with "1.prems" show ?thesis by (subst decimalDigits.simps) simp
  next
    case False
    obtain j where k: "k = Suc j" using "1.prems"(1) by (cases k) auto
    have "j \<noteq> 0" using False "1.prems"(2) k by (cases j) auto
    moreover have "n div 10 < 10 ^ j" using "1.prems"(2) k by (simp add: less_mult_imp_div_less)
    ultimately have "length (decimalDigits (n div 10)) \<le> j"
      using "1.IH" [of j] False by simp
    with False k show ?thesis by (subst decimalDigits.simps) simp
  qed
qed

lemma decimalDigits_bound: "n < 10 ^ length (decimalDigits n)"
proof (induction n rule: decimalDigits.induct)
  case (1 n)
  show ?case
  proof (cases "n < 10")
    case True
    then show ?thesis by (subst decimalDigits.simps) simp
  next
    case False
    with 1 have "n div 10 < 10 ^ length (decimalDigits (n div 10))" by simp
    then have "n < 10 * 10 ^ length (decimalDigits (n div 10))" by linarith
    with False show ?thesis by (subst decimalDigits.simps) simp
  qed
qed

lemma decimalDigits_hd: "hd (decimalDigits n) = 48 \<Longrightarrow> n = 0"
proof (induction n rule: decimalDigits.induct)
  case (1 n)
  show ?case
  proof (cases "n < 10")
    case True
    with "1.prems" show ?thesis by (simp add: decimalDigits.simps [of n])
  next
    case False
    then have "hd (decimalDigits n) = hd (decimalDigits (n div 10))"
      by (subst decimalDigits.simps) (simp add: decimalDigits_nonempty)
    with 1 False have "n div 10 = 0" by simp
    with False show ?thesis by simp
  qed
qed

lemma decimalDigits_0: "decimalDigits 0 = [48]"
  by (simp add: decimalDigits.simps)

subsection \<open>Printing small numbers\<close>

lemma positiveToString_small: "n < 2 ^ 53 \<Longrightarrow> positiveToString n = decimalDigits n"
proof -
  assume n: "n < 2 ^ 53"
  have "(2::nat) ^ 53 < 10 ^ 21" by simp
  with n have "n < 10 ^ 21" by linarith
  then have "length (decimalDigits n) \<le> 21" by (intro decimalDigits_length) simp_all
  with n show ?thesis by (simp add: positiveToString_def shortestDecimal_small Let_def)
qed

subsection \<open>The octets\<close>

lemma octet_value:
  "uint (drop_bit k (word_of_int (int v) :: 32 word) AND 0xFF) = int (v mod 2 ^ 32 div 2 ^ k mod 256)"
proof -
  let ?w = "of_nat v :: 32 word"
  have m: "(0xFF :: 32 word) = mask 8" by (simp add: mask_eq_exp_minus_1)
  have u: "unat ?w = v mod 2 ^ 32" by (simp add: unat_of_nat)
  have "unat (take_bit 8 (drop_bit k ?w)) = take_bit 8 (drop_bit k (unat ?w))"
    by (simp only: unsigned_take_bit_eq unat_drop_bit_eq)
  also have "\<dots> = take_bit 8 (drop_bit k (v mod 2 ^ 32))" by (simp only: u)
  also have "\<dots> = v mod 2 ^ 32 div 2 ^ k mod 256" by (simp add: take_bit_eq_mod drop_bit_eq_div)
  finally have "unat (drop_bit k ?w AND 0xFF) = v mod 2 ^ 32 div 2 ^ k mod 256"
    by (simp only: m take_bit_eq_mask)
  then have "int (unat (drop_bit k ?w AND 0xFF)) = int (v mod 2 ^ 32 div 2 ^ k mod 256)"
    by (rule arg_cong)
  then show ?thesis by simp
qed

lemma octet_small: "v mod 2 ^ 32 div 2 ^ k mod 256 < (2::nat) ^ 53"
proof -
  have "v mod 2 ^ 32 div 2 ^ k mod 256 < (256::nat)" by simp
  then show ?thesis by simp
qed

lemma octet_toString:
  "numberToString (Finite (uint (drop_bit k (word_of_int (int v) :: 32 word) AND 0xFF)))
     = decimalDigits (v mod 2 ^ 32 div 2 ^ k mod 256)"
proof -
  have "positiveToString (v mod 2 ^ 32 div 2 ^ k mod 256) = decimalDigits (v mod 2 ^ 32 div 2 ^ k mod 256)"
    using octet_small by (rule positiveToString_small)
  then show ?thesis
    by (simp only: octet_value numberToString_def jsnum.case nat_int) simp
qed

lemma dottedQuad_specQuad: "dottedQuad (Finite (int v)) = specQuad v"
proof -
  have z: "(word_of_int (int v) :: 32 word) AND 0xFF = drop_bit 0 (word_of_int (int v) :: 32 word) AND 0xFF"
    by simp
  have "dottedQuad (Finite (int v)) =
      join DOT [decimalDigits (v mod 2 ^ 32 div 2 ^ 24 mod 256),
                decimalDigits (v mod 2 ^ 32 div 2 ^ 16 mod 256),
                decimalDigits (v mod 2 ^ 32 div 2 ^ 8 mod 256),
                decimalDigits (v mod 2 ^ 32 div 2 ^ 0 mod 256)]"
    unfolding dottedQuad_def octets_def toUint32_def jsnum.case list.map
    by (subst z) (simp only: octet_toString)
  then show ?thesis by (simp add: specQuad_def Let_def)
qed

subsection \<open>Parsing a run of decimal digits\<close>

lemma digit_not_space: "isDigit c \<Longrightarrow> \<not> isWhiteSpace c"
  by (auto simp: isDigit_def isWhiteSpace_def)

lemma digit_radix10: "isDigit c \<Longrightarrow> isRadixDigit 10 c"
  by (auto simp: isDigit_def isRadixDigit_def digitValue_def)

lemma takeWhile_digits: "list_all isDigit ds \<Longrightarrow> takeWhile (isRadixDigit 10) ds = ds"
  by (induction ds) (simp_all add: digit_radix10)

lemma parseInt_digits:
  assumes "ds \<noteq> []" and "list_all isDigit ds"
  shows "parseInt ds 10 = toNumber False (digitsValue 10 ds)"
proof -
  obtain c cs where ds: "ds = c # cs" using assms(1) by (cases ds) auto
  have c: "isDigit c" using assms(2) ds by simp
  then have ws: "\<not> isWhiteSpace c" by (rule digit_not_space)
  have sign: "c \<noteq> 43" "c \<noteq> 45" using c by (auto simp: isDigit_def)
  have rc: "isRadixDigit 10 c" using c by (rule digit_radix10)
  have t: "takeWhile (isRadixDigit 10) cs = cs"
    using assms(2) ds by (intro takeWhile_digits) simp
  show ?thesis
    unfolding ds parseInt_def trimStart_def
    using ws sign rc by (simp add: Let_def t)
qed

lemma parseInt_minus_digits:
  assumes "ds \<noteq> []" and "list_all isDigit ds"
  shows "parseInt (45 # ds) 10 = toNumber True (digitsValue 10 ds)"
proof -
  have ws: "\<not> isWhiteSpace 45" by (simp add: isWhiteSpace_def)
  have t: "takeWhile (isRadixDigit 10) ds = ds" using assms(2) by (rule takeWhile_digits)
  show ?thesis
    unfolding parseInt_def trimStart_def
    using ws assms(1) by (simp add: Let_def t)
qed

lemma dottedQuad_PosInfinity: "dottedQuad PosInfinity = str ''0.0.0.0''"
  by (simp add: js_eval)

text \<open>
  C5 (amended): for an input that, trimmed, is a non-empty run of decimal digits,
  \<open>normalizeIp\<close> returns the four octets of the double nearest to the number
  written (\<open>0.0.0.0\<close> when that double is Infinity), reduced modulo \<open>2^32\<close> and
  decomposed by 8-bit shifts. For a number below \<open>2^53\<close> the double is the number
  itself, and the result is the octets of the number modulo \<open>2^32\<close>, as the
  specification words it.
\<close>

theorem normalizeIp_decimal:
  assumes "matchesDecimal (trim x)"
  shows "normalizeIp x =
           (case roundToDouble (digitsValue 10 (trim x)) of
              None \<Rightarrow> str ''0.0.0.0''
            | Some v \<Rightarrow> specQuad v) \<and>
         (digitsValue 10 (trim x) < 2 ^ 53 \<longrightarrow> normalizeIp x = specQuad (digitsValue 10 (trim x)))"
proof -
  have p: "parseInt (trim x) 10 = toNumber False (digitsValue 10 (trim x))"
    using assms by (intro parseInt_digits) (simp_all add: matchesDecimal_def)
  have n: "normalizeIp x = dottedQuad (toNumber False (digitsValue 10 (trim x)))"
    using assms by (simp add: normalizeIp_def Let_def p)
  have a: "normalizeIp x =
           (case roundToDouble (digitsValue 10 (trim x)) of
              None \<Rightarrow> str ''0.0.0.0''
            | Some v \<Rightarrow> specQuad v)"
    by (simp add: n toNumber_def dottedQuad_PosInfinity dottedQuad_specQuad split: option.split)
  have b: "normalizeIp x = specQuad (digitsValue 10 (trim x))" if "digitsValue 10 (trim x) < 2 ^ 53"
    using that by (simp add: a roundToDouble_small)
  from a b show ?thesis by blast
qed

theorem normalizeIp_decimal_witness:
  "matchesDecimal (trim (str '' 3232235826 '')) \<and>
   digitsValue 10 (trim (str '' 3232235826 '')) = 3232235826 \<and>
   normalizeIp (str '' 3232235826 '') = str ''192.168.1.50''"
proof -
  have t: "trim (str '' 3232235826 '') = str ''3232235826''"
    by (simp add: js_eval)
  have m: "matchesDecimal (trim (str '' 3232235826 ''))"
    unfolding t by (simp add: js_eval)
  have v: "digitsValue 10 (trim (str '' 3232235826 '')) = 3232235826"
    unfolding t by (simp add: js_eval)
  have s: "specQuad 3232235826 = str ''192.168.1.50''"
    by (simp add: specQuad_def js_eval)
  have "digitsValue 10 (trim (str '' 3232235826 '')) < 2 ^ 53"
    unfolding v by simp
  with normalizeIp_decimal [OF m]
  have "normalizeIp (str '' 3232235826 '') = specQuad (digitsValue 10 (trim (str '' 3232235826 '')))"
    by blast
  with m v s show ?thesis by simp
qed

text \<open>
  \<open>9007199254740993\<close> is \<open>2^53 + 1\<close>, which is not a double: \<open>parseInt\<close> returns
  \<open>2^53\<close>, and the octets are those of 0, not those of 1.
\<close>

theorem normalizeIp_decimal_rounding_counterexample:
  "matchesDecimal (trim (str ''9007199254740993'')) \<and>
   digitsValue 10 (trim (str ''9007199254740993'')) = 9007199254740993 \<and>
   normalizeIp (str ''9007199254740993'') = str ''0.0.0.0'' \<and>
   specQuad 9007199254740993 = str ''0.0.0.1''"
proof -
  have m: "matchesDecimal (trim (str ''9007199254740993''))"
    by (simp add: js_eval)
  have v: "digitsValue 10 (trim (str ''9007199254740993'')) = 9007199254740993"
    by (simp add: js_eval)
  have n: "normalizeIp (str ''9007199254740993'') = str ''0.0.0.0''"
    by (simp add: js_eval)
  have s: "specQuad 9007199254740993 = str ''0.0.0.1''"
    by (simp add: specQuad_def js_eval)
  from m v n s show ?thesis by blast
qed
section \<open>Idempotence\<close>

subsection \<open>Rounding is idempotent\<close>

lemma roundToDouble_scaled:
  assumes "2 ^ 52 \<le> m" and "m < 2 ^ 53" and "m * 2 ^ e < 2 ^ 1024"
  shows "roundToDouble (m * 2 ^ e) = Some (m * 2 ^ e)"
proof (cases e)
  case 0
  with assms(2) show ?thesis by (simp add: roundToDouble_small)
next
  case (Suc e')
  have lo: "2 ^ (52 + e) \<le> m * 2 ^ e"
    using assms(1) by (simp add: power_add)
  have hi: "m * 2 ^ e < 2 ^ Suc (52 + e)"
    using assms(2) by (simp add: power_add)
  have b: "bitLength (m * 2 ^ e) = Suc (52 + e)"
    using lo hi by (rule bitLength_eq)
  have sh: "Suc (52 + e) - 53 = e" by simp
  have h: "(0::nat) < 2 ^ (e - 1)" by simp
  show ?thesis
    unfolding roundToDouble_def b Let_def sh
    using assms(3) h Suc by simp
qed

lemma roundToDouble_isDouble:
  assumes "roundToDouble n = Some v"
  shows "isDouble v"
proof (cases "bitLength n \<le> 53")
  case True
  with assms have "v = n" by (simp add: roundToDouble_def Let_def)
  with assms show ?thesis by (simp add: isDouble_def)
next
  case False
  define sh where "sh = bitLength n - 53"
  define q where "q = n div 2 ^ sh"
  have b: "bitLength n = 53 + sh" using False by (simp add: sh_def)
  have n0: "n \<noteq> 0" using False by (intro bitLength_pos) simp
  have "2 ^ (bitLength n - 1) \<le> n" using n0 by (rule bitLength_lower)
  then have "2 ^ 52 * 2 ^ sh \<le> n" by (simp add: b power_add)
  then have q52: "2 ^ 52 \<le> q"
    unfolding q_def by (simp add: less_eq_div_iff_mult_less_eq)
  have "n < 2 ^ bitLength n" by (rule bitLength_upper)
  then have "n < 2 ^ 53 * 2 ^ sh" by (simp add: b power_add)
  then have q53: "q < 2 ^ 53"
    unfolding q_def by (simp add: less_mult_imp_div_less)
  from assms False have v: "(v = q * 2 ^ sh \<or> v = (q + 1) * 2 ^ sh) \<and> v < 2 ^ 1024"
    by (auto simp: roundToDouble_def Let_def sh_def q_def split: if_splits)
  have bound: "v < 2 ^ 1024" using v by simp
  show ?thesis
  proof (cases "v = q * 2 ^ sh")
    case True
    have "roundToDouble (q * 2 ^ sh) = Some (q * 2 ^ sh)"
      using q52 q53 bound [unfolded True] by (rule roundToDouble_scaled)
    with True show ?thesis by (simp only: isDouble_def)
  next
    case False
    with v have v1: "v = (q + 1) * 2 ^ sh" by simp
    show ?thesis
    proof (cases "q + 1 < 2 ^ 53")
      case True
      have "2 ^ 52 \<le> q + 1" using q52 by simp
      then have "roundToDouble ((q + 1) * 2 ^ sh) = Some ((q + 1) * 2 ^ sh)"
        using True bound [unfolded v1] by (rule roundToDouble_scaled)
      with v1 show ?thesis by (simp only: isDouble_def)
    next
      case False
      with q53 have q1: "q + 1 = 2 ^ 53" by simp
      have v2: "v = 2 ^ 52 * 2 ^ Suc sh" unfolding v1 q1 by simp
      have "(2::nat) ^ 52 \<le> 2 ^ 52" and "(2::nat) ^ 52 < 2 ^ 53" by simp_all
      then have "roundToDouble (2 ^ 52 * 2 ^ Suc sh) = Some (2 ^ 52 * 2 ^ Suc sh)"
        using bound [unfolded v2] by (rule roundToDouble_scaled)
      with v2 show ?thesis by (simp only: isDouble_def)
    qed
  qed
qed

lemma toNumber_isDouble: "toNumber neg n = Finite i \<Longrightarrow> isDouble (nat \<bar>i\<bar>)"
  by (auto simp: toNumber_def roundToDouble_isDouble split: option.splits if_splits)

lemma parseInt_isDouble: "parseInt s R = Finite i \<Longrightarrow> isDouble (nat \<bar>i\<bar>)"
  by (auto simp: parseInt_def Let_def toNumber_isDouble split: if_splits)

lemma partValue_isDouble: "partValue p = Finite i \<Longrightarrow> isDouble (nat \<bar>i\<bar>)"
  by (auto simp: partValue_def parseInt_isDouble split: if_splits)

subsection \<open>The shortest decimal rounds back and stays below \<open>10^21\<close>\<close>

lemma shortestFrom_roundtrip: "isDouble x \<Longrightarrow> roundToDouble (shortestFrom x e) = Some x"
proof (induction e)
  case 0
  then show ?case by (simp add: isDouble_def)
next
  case (Suc e)
  then show ?case
    by (cases "roundTripAt x (10 ^ Suc e)") (simp_all add: roundTripAt_Some)
qed

lemma shortestDecimal_roundtrip: "isDouble x \<Longrightarrow> roundToDouble (shortestDecimal x) = Some x"
  by (simp add: shortestDecimal_def shortestFrom_roundtrip)

lemma roundTripAt_cases:
  "roundTripAt x p = Some v \<Longrightarrow> v = x div p * p \<or> v = x div p * p + p"
  by (auto simp: roundTripAt_def Let_def split: if_splits)

lemma roundToDouble_10_21: "roundToDouble (10 ^ 21) = Some (10 ^ 21)"
  by (simp add: roundToDouble_def Let_def bitLength.simps)

lemma shortestFrom_below:
  assumes "isDouble x" and "x < 10 ^ 21"
  shows "e < length (decimalDigits x) \<Longrightarrow> shortestFrom x e < 10 ^ 21"
proof (induction e)
  case 0
  with assms show ?case by simp
next
  case (Suc e)
  show ?case
  proof (cases "roundTripAt x (10 ^ Suc e)")
    case None
    with Suc show ?thesis by simp
  next
    case (Some v)
    let ?D = "length (decimalDigits x)"
    let ?p = "(10::nat) ^ Suc e"
    have r: "roundToDouble v = Some x" using Some by (rule roundTripAt_Some)
    have D21: "?D \<le> 21" using assms(2) by (intro decimalDigits_length) simp_all
    have "?D - Suc e + Suc e = ?D" using Suc.prems by simp
    then have pw: "10 ^ (?D - Suc e) * ?p = (10::nat) ^ ?D"
      by (simp only: flip: power_add)
    have "x < 10 ^ ?D" by (rule decimalDigits_bound)
    then have "x < 10 ^ (?D - Suc e) * ?p" by (simp only: pw)
    then have "x div ?p < 10 ^ (?D - Suc e)"
      by (rule less_mult_imp_div_less)
    then have "x div ?p + 1 \<le> 10 ^ (?D - Suc e)" by simp
    then have "(x div ?p + 1) * ?p \<le> 10 ^ (?D - Suc e) * ?p" by (rule mult_le_mono1)
    also note pw
    also have "(10::nat) ^ ?D \<le> 10 ^ 21" using D21 by (rule power_increasing) simp
    finally have hi: "x div ?p * ?p + ?p \<le> 10 ^ 21" by (simp add: algebra_simps)
    have lo: "x div ?p * ?p \<le> x" by simp
    have "v < 10 ^ 21"
    proof (rule ccontr)
      assume "\<not> v < 10 ^ 21"
      with roundTripAt_cases [OF Some] lo hi assms(2) have "v = 10 ^ 21" by linarith
      with r roundToDouble_10_21 have "x = 10 ^ 21" by simp
      with assms(2) show False by simp
    qed
    with Some show ?thesis by simp
  qed
qed

lemma shortestDecimal_below:
  assumes "isDouble x" and "x < 10 ^ 21"
  shows "shortestDecimal x < 10 ^ 21"
  unfolding shortestDecimal_def
  using assms by (rule shortestFrom_below) (simp add: decimalDigits_nonempty)

lemma positiveToString_plain:
  assumes "isDouble x" and "x < 10 ^ 21"
  shows "positiveToString x = decimalDigits (shortestDecimal x)"
proof -
  have "shortestDecimal x < 10 ^ 21" using assms by (rule shortestDecimal_below)
  then have "length (decimalDigits (shortestDecimal x)) \<le> 21"
    by (intro decimalDigits_length) simp_all
  then show ?thesis by (simp add: positiveToString_def Let_def)
qed

subsection \<open>Splitting, joining, trimming\<close>

lemma split_no_separator: "sep \<notin> set a \<Longrightarrow> split sep a = [a]"
  by (induction a) auto

lemma split_append: "sep \<notin> set a \<Longrightarrow> split sep (a @ sep # r) = a # split sep r"
  by (induction a) auto

lemma split_join4:
  assumes "DOT \<notin> set a" and "DOT \<notin> set b" and "DOT \<notin> set c" and "DOT \<notin> set d"
  shows "split DOT (join DOT [a, b, c, d]) = [a, b, c, d]"
  using assms by (simp add: split_append split_no_separator)

lemma trim_fixed:
  assumes "s \<noteq> []" and "\<not> isWhiteSpace (hd s)" and "\<not> isWhiteSpace (last s)"
  shows "trim s = s"
proof -
  have "dropWhile isWhiteSpace s = s"
    using assms(2) by (simp add: dropWhile_eq_self_iff)
  moreover have "dropWhile isWhiteSpace (rev s) = rev s"
    using assms(3) by (simp add: dropWhile_eq_self_iff hd_rev)
  ultimately show ?thesis by (simp add: trim_def trimStart_def trimEnd_def)
qed

lemma trim_ends:
  assumes "trim s \<noteq> []"
  shows "\<not> isWhiteSpace (hd (trim s)) \<and> \<not> isWhiteSpace (last (trim s))"
proof -
  let ?u = "dropWhile isWhiteSpace s"
  let ?w = "dropWhile isWhiteSpace (rev ?u)"
  have t: "trim s = rev ?w" by (simp add: trim_def trimStart_def trimEnd_def)
  have w: "?w \<noteq> []" using assms t by simp
  have u: "?u \<noteq> []"
  proof
    assume "?u = []"
    then have "?w = []" by (simp only: rev.simps dropWhile.simps)
    with w show False by contradiction
  qed
  have "\<not> isWhiteSpace (hd ?w)" using w by (rule hd_dropWhile)
  then have l: "\<not> isWhiteSpace (last (trim s))" by (simp add: t last_rev)
  have "rev ?u = takeWhile isWhiteSpace (rev ?u) @ ?w" by simp
  then have "last (rev ?u) = last ?w" using w by (metis last_appendR)
  then have "hd (trim s) = hd ?u" by (simp add: t hd_rev last_rev)
  moreover have "\<not> isWhiteSpace (hd ?u)" using u by (rule hd_dropWhile)
  ultimately show ?thesis using l by simp
qed

lemma trim_idempotent: "trim (trim s) = trim s"
proof (cases "trim s = []")
  case True
  have "trim [] = []" by (simp add: trim_def trimStart_def trimEnd_def)
  with True show ?thesis by simp
next
  case False
  with trim_ends [OF False] show ?thesis by (intro trim_fixed) simp_all
qed

lemma dot_not_decimal:
  assumes "DOT \<in> set s"
  shows "\<not> matchesDecimal s"
proof
  assume "matchesDecimal s"
  then have "list_all isDigit s" by (simp add: matchesDecimal_def)
  with assms have "isDigit DOT" by (simp add: list_all_iff)
  then show False by (simp add: isDigit_def DOT_def)
qed

lemma dot_not_hex: 
  assumes "DOT \<in> set s"
  shows "\<not> matchesHex s"
proof
  assume m: "matchesHex s"
  then have h: "list_all isHexDigit (drop 2 s)"
    by (simp add: matchesHex_def)
  from m have "take (length (str ''0x'')) s = str ''0x''"
    by (simp add: matchesHex_def startsWith_def)
  moreover have "str ''0x'' = [48, 120]" by (simp add: str_def)
  moreover have "length [48, 120 :: nat] = 2" by simp
  ultimately have p: "take 2 s = [48, 120]" by (simp only:)
  have "set s = set (take 2 s) \<union> set (drop 2 s)"
    by (metis append_take_drop_id set_append)
  with assms p have "DOT \<in> set (drop 2 s)" by (auto simp: DOT_def)
  with h have "isHexDigit DOT" by (simp add: list_all_iff)
  then show False by (simp add: isHexDigit_def DOT_def)
qed

lemma normalizeIp_canonical:
  assumes "canonicalPart a" and "canonicalPart b" and "canonicalPart c" and "canonicalPart d"
  shows "normalizeIp (join DOT [a, b, c, d]) = join DOT [a, b, c, d]"
proof -
  let ?s = "join DOT [a, b, c, d]"
  have s: "?s = a @ DOT # b @ DOT # c @ DOT # d" by simp
  have ne: "?s \<noteq> []" using assms(1) by (simp add: canonicalPart_def)
  have h: "hd ?s = hd a" using assms(1) by (simp add: canonicalPart_def)
  have l: "last ?s = last d" using assms(4) by (simp add: canonicalPart_def)
  have t: "trim ?s = ?s"
    using ne assms(1,4) unfolding h [symmetric] l [symmetric]
    by (intro trim_fixed) (simp_all add: canonicalPart_def h l)
  have dot: "DOT \<in> set ?s" by simp
  have sp: "split DOT ?s = [a, b, c, d]"
    using assms by (intro split_join4) (simp_all add: canonicalPart_def)
  have np: "map normalizePart [a, b, c, d] = [a, b, c, d]"
    using assms by (simp add: canonicalPart_def)
  show ?thesis
    unfolding normalizeIp_def Let_def t
    using dot_not_decimal [OF dot] dot_not_hex [OF dot] by (simp only: if_False sp np) simp
qed

subsection \<open>What \<open>toString\<close> prints is a fixed point of \<open>normalizePart\<close>\<close>

lemma digits_not_0x:
  assumes "list_all isDigit t"
  shows "\<not> startsWith t (str ''0x'')"
proof
  assume "startsWith t (str ''0x'')"
  then have "take (length (str ''0x'')) t = str ''0x''" by (simp add: startsWith_def)
  moreover have "str ''0x'' = [48, 120]" by (simp add: str_def)
  moreover have "length [48, 120 :: nat] = 2" by simp
  ultimately have "take 2 t = [48, 120]" by (simp only:)
  then have "120 \<in> set (take 2 t)" by simp
  then have "120 \<in> set t" by (rule in_set_takeD)
  with assms have "isDigit 120" by (simp add: list_all_iff)
  then show False by (simp add: isDigit_def)
qed

lemma decimalDigits_not_octal:
  "\<not> (startsWith (decimalDigits v) (str ''0'') \<and> 1 < length (decimalDigits v))"
proof
  assume a: "startsWith (decimalDigits v) (str ''0'') \<and> 1 < length (decimalDigits v)"
  then have "take (length (str ''0'')) (decimalDigits v) = str ''0''" by (simp add: startsWith_def)
  moreover have "str ''0'' = [48]" by (simp add: str_def)
  moreover have "length [48 :: nat] = 1" by simp
  ultimately have "take 1 (decimalDigits v) = [48]" by (simp only:)
  then have "hd (decimalDigits v) = 48"
    by (cases "decimalDigits v") simp_all
  then have "v = 0" by (rule decimalDigits_hd)
  with a show False by (simp add: decimalDigits_0)
qed

lemma digits_ends:
  assumes "t \<noteq> []" and "list_all isDigit t"
  shows "DOT \<notin> set t" and "\<not> isWhiteSpace (hd t)" and "\<not> isWhiteSpace (last t)"
proof -
  show "DOT \<notin> set t"
  proof
    assume "DOT \<in> set t"
    with assms(2) have "isDigit DOT" by (simp add: list_all_iff)
    then show False by (simp add: isDigit_def DOT_def)
  qed
  have "hd t \<in> set t" and "last t \<in> set t" using assms(1) by simp_all
  with assms(2) have "isDigit (hd t)" and "isDigit (last t)" by (simp_all add: list_all_iff)
  then show "\<not> isWhiteSpace (hd t)" and "\<not> isWhiteSpace (last t)"
    by (simp_all add: digit_not_space)
qed

lemma canonical_digits:
  assumes "roundToDouble v = Some x" and "positiveToString x = decimalDigits v"
  shows "canonicalPart (decimalDigits v)"
proof -
  let ?t = "decimalDigits v"
  have ne: "?t \<noteq> []" by (rule decimalDigits_nonempty)
  have dg: "list_all isDigit ?t" by (rule decimalDigits_digits)
  have "parseInt ?t 10 = toNumber False (digitsValue 10 ?t)"
    using ne dg by (rule parseInt_digits)
  then have p: "parseInt ?t 10 = Finite (int x)"
    by (simp add: digitsValue_decimalDigits toNumber_def assms(1))
  have "normalizePart ?t = numberToString (parseInt ?t 10)"
    unfolding normalizePart_def
    by (simp only: digits_not_0x [OF dg] decimalDigits_not_octal [of v] if_False)
  then have "normalizePart ?t = ?t"
    by (simp add: p numberToString_def assms(2))
  with ne digits_ends [OF ne dg] show ?thesis by (simp add: canonicalPart_def)
qed

lemma canonical_minus_digits:
  assumes "roundToDouble v = Some x" and "0 < x" and "positiveToString x = decimalDigits v"
  shows "canonicalPart (45 # decimalDigits v)"
proof -
  let ?t = "decimalDigits v"
  have ne: "?t \<noteq> []" by (rule decimalDigits_nonempty)
  have dg: "list_all isDigit ?t" by (rule decimalDigits_digits)
  have "parseInt (45 # ?t) 10 = toNumber True (digitsValue 10 ?t)"
    using ne dg by (rule parseInt_minus_digits)
  then have p: "parseInt (45 # ?t) 10 = Finite (- int x)"
    by (simp add: digitsValue_decimalDigits toNumber_def assms(1))
  have "normalizePart (45 # ?t) = numberToString (parseInt (45 # ?t) 10)"
    by (simp add: normalizePart_def startsWith_def str_def)
  then have n: "normalizePart (45 # ?t) = 45 # ?t"
    using assms(2) by (simp add: p numberToString_def assms(3))
  have "\<not> isWhiteSpace 45" by (simp add: isWhiteSpace_def)
  with n ne digits_ends [OF ne dg] show ?thesis by (simp add: canonicalPart_def DOT_def)
qed

lemma canonical_positive:
  assumes "isDouble x" and "x < 10 ^ 21"
  shows "canonicalPart (positiveToString x)"
proof -
  have r: "roundToDouble (shortestDecimal x) = Some x"
    using assms(1) by (rule shortestDecimal_roundtrip)
  have s: "positiveToString x = decimalDigits (shortestDecimal x)"
    using assms by (rule positiveToString_plain)
  from r s have "canonicalPart (decimalDigits (shortestDecimal x))"
    by (rule canonical_digits)
  then show ?thesis by (simp only: s)
qed

lemma canonical_negative:
  assumes "isDouble x" and "x < 10 ^ 21" and "0 < x"
  shows "canonicalPart (45 # positiveToString x)"
proof -
  have r: "roundToDouble (shortestDecimal x) = Some x"
    using assms(1) by (rule shortestDecimal_roundtrip)
  have s: "positiveToString x = decimalDigits (shortestDecimal x)"
    using assms(1,2) by (rule positiveToString_plain)
  from r assms(3) s have "canonicalPart (45 # decimalDigits (shortestDecimal x))"
    by (rule canonical_minus_digits)
  then show ?thesis by (simp only: s)
qed

lemma canonical_Finite:
  assumes "isDouble (nat \<bar>i\<bar>)" and "\<bar>i\<bar> < 10 ^ 21"
  shows "canonicalPart (numberToString (Finite i))"
proof (cases "i < 0")
  case True
  then have a: "\<bar>i\<bar> = - i" by simp
  have d: "isDouble (nat (- i))" using assms(1) by (simp only: a)
  have "- i < 10 ^ 21" using assms(2) by (simp only: a)
  then have b: "nat (- i) < 10 ^ 21" by (simp add: nat_less_iff)
  have p: "0 < nat (- i)" using True by simp
  have "numberToString (Finite i) = 45 # positiveToString (nat (- i))"
    using True by (simp add: numberToString_def)
  with canonical_negative [OF d b p] show ?thesis by (simp only:)
next
  case False
  then have a: "\<bar>i\<bar> = i" by simp
  have d: "isDouble (nat i)" using assms(1) by (simp only: a)
  have "i < 10 ^ 21" using assms(2) by (simp only: a)
  then have b: "nat i < 10 ^ 21" by (simp add: nat_less_iff)
  have "numberToString (Finite i) = positiveToString (nat i)"
    using False by (simp add: numberToString_def)
  with canonical_positive [OF d b] show ?thesis by (simp only:)
qed

lemma canonical_NaN: "canonicalPart (str ''NaN'')"
  by (simp add: canonicalPart_def normalizePart_def startsWith_def str_def parseInt_def trimStart_def isWhiteSpace_def isRadixDigit_def digitValue_def numberToString_def DOT_def Let_def)

lemma normalizePart_partValue: "normalizePart p = numberToString (partValue p)"
  by (simp add: normalizePart_def partValue_def)

lemma canonical_plain:
  assumes "plainNumber (partValue p)"
  shows "canonicalPart (normalizePart p)"
proof (cases "partValue p")
  case NaN
  then show ?thesis
    using canonical_NaN by (simp add: normalizePart_partValue numberToString_def)
next
  case (Finite i)
  then have "isDouble (nat \<bar>i\<bar>)" by (rule partValue_isDouble)
  moreover have "\<bar>i\<bar> < 10 ^ 21" using assms Finite by (simp add: plainNumber_def)
  ultimately have "canonicalPart (numberToString (Finite i))" by (rule canonical_Finite)
  with Finite show ?thesis by (simp add: normalizePart_partValue)
next
  case PosInfinity
  with assms show ?thesis by (simp add: plainNumber_def)
next
  case NegInfinity
  with assms show ?thesis by (simp add: plainNumber_def)
qed

lemma canonical_octet: "canonicalPart (numberToString (Finite (uint (w :: 32 word))))"
proof -
  have "uint w < 2 ^ 32" using uint_bounded [of w] by simp
  have "unat w < 2 ^ 32" using unsigned_less [of w, where ?'a = nat] by simp
  moreover have "nat \<bar>uint w\<bar> = unat w" by simp
  ultimately have u: "nat \<bar>uint w\<bar> < 2 ^ 32" by (simp only:)
  have "(2::nat) ^ 32 < 2 ^ 53" by simp
  with u have "nat \<bar>uint w\<bar> < 2 ^ 53" by (rule less_trans)
  then have "roundToDouble (nat \<bar>uint w\<bar>) = Some (nat \<bar>uint w\<bar>)"
    by (rule roundToDouble_small)
  then have "isDouble (nat \<bar>uint w\<bar>)" by (simp only: isDouble_def)
  moreover have "\<bar>uint w\<bar> < 10 ^ 21" using \<open>uint w < 2 ^ 32\<close> by simp
  ultimately show ?thesis by (rule canonical_Finite)
qed

subsection \<open>The normalizer on its own output\<close>

lemma normalizeIp_dottedQuad: "normalizeIp (dottedQuad num) = dottedQuad num"
  unfolding dottedQuad_def octets_def list.map
  by (intro normalizeIp_canonical canonical_octet)

lemma normalizeIp_four_parts:
  assumes "length parts = 4" and "list_all (\<lambda>p. plainNumber (partValue p)) parts"
  shows "normalizeIp (join DOT (map normalizePart parts)) = join DOT (map normalizePart parts)"
proof -
  obtain a b c d where p: "parts = [a, b, c, d]"
    using assms(1) by (auto simp: length_Suc_conv numeral_eq_Suc)
  have "canonicalPart (normalizePart a)" "canonicalPart (normalizePart b)"
    "canonicalPart (normalizePart c)" "canonicalPart (normalizePart d)"
    using assms(2) by (simp_all add: p canonical_plain)
  then have "normalizeIp (join DOT [normalizePart a, normalizePart b, normalizePart c, normalizePart d])
      = join DOT [normalizePart a, normalizePart b, normalizePart c, normalizePart d]"
    by (rule normalizeIp_canonical)
  then show ?thesis by (simp only: p list.map)
qed

text \<open>
  C3 (amended): \<open>normalizeIp(normalizeIp(x)) = normalizeIp(x)\<close> for every input
  \<open>x\<close> except those whose trimmed form splits on dots into exactly four parts of which
  one parses to a number of magnitude \<open>10^21\<close> or more (or to an infinity): such a
  number is printed with an exponent (\<open>1e+21\<close>), which is not read back as the same
  number.
\<close>

theorem normalizeIp_idempotent_plain:
  assumes "length (split DOT (trim x)) = 4 \<Longrightarrow>
           list_all (\<lambda>p. plainNumber (partValue p)) (split DOT (trim x))"
  shows "normalizeIp (normalizeIp x) = normalizeIp x"
proof -
  consider (dec) "matchesDecimal (trim x)"
    | (hex) "\<not> matchesDecimal (trim x)" "matchesHex (trim x)"
    | (four) "\<not> matchesDecimal (trim x)" "\<not> matchesHex (trim x)" "length (split DOT (trim x)) = 4"
    | (other) "\<not> matchesDecimal (trim x)" "\<not> matchesHex (trim x)" "length (split DOT (trim x)) \<noteq> 4"
    by blast
  then show ?thesis
  proof cases
    case dec
    then have "normalizeIp x = dottedQuad (parseInt (trim x) 10)"
      by (simp add: normalizeIp_def Let_def)
    then show ?thesis by (simp only: normalizeIp_dottedQuad)
  next
    case hex
    then have "normalizeIp x = dottedQuad (parseInt (trim x) 16)"
      by (simp add: normalizeIp_def Let_def)
    then show ?thesis by (simp only: normalizeIp_dottedQuad)
  next
    case four
    then have "normalizeIp x = join DOT (map normalizePart (split DOT (trim x)))"
      by (simp add: normalizeIp_def Let_def)
    moreover have "normalizeIp (join DOT (map normalizePart (split DOT (trim x))))
        = join DOT (map normalizePart (split DOT (trim x)))"
      using four(3) assms [OF four(3)] by (rule normalizeIp_four_parts)
    ultimately show ?thesis by (simp only:)
  next
    case other
    then have n: "normalizeIp x = trim x"
      by (simp add: normalizeIp_def Let_def)
    have "normalizeIp (trim x) = trim x"
      using other by (simp add: normalizeIp_def Let_def trim_idempotent)
    with n show ?thesis by (simp only:)
  qed
qed

theorem normalizeIp_idempotent_plain_witness:
  "list_all (\<lambda>p. plainNumber (partValue p)) (split DOT (trim (str '' 0xC0.0250.1.abc  ''))) \<and>
   normalizeIp (str '' 0xC0.0250.1.abc  '') = str ''192.168.1.NaN'' \<and>
   normalizeIp (normalizeIp (str '' 0xC0.0250.1.abc  '')) = normalizeIp (str '' 0xC0.0250.1.abc  '')"
proof -
  have s: "split DOT (trim (str '' 0xC0.0250.1.abc  '')) = [str ''0xC0'', str ''0250'', str ''1'', str ''abc'']"
    by (simp add: js_eval)
  have v: "map partValue [str ''0xC0'', str ''0250'', str ''1'', str ''abc''] = [Finite 192, Finite 168, Finite 1, NaN]"
    by (simp add: partValue_def js_eval)
  have h: "list_all (\<lambda>p. plainNumber (partValue p)) (split DOT (trim (str '' 0xC0.0250.1.abc  '')))"
    using v by (simp add: s plainNumber_def)
  have n: "normalizeIp (str '' 0xC0.0250.1.abc  '') = str ''192.168.1.NaN''"
    by (simp add: js_eval)
  have "normalizeIp (normalizeIp (str '' 0xC0.0250.1.abc  '')) = normalizeIp (str '' 0xC0.0250.1.abc  '')"
    by (rule normalizeIp_idempotent_plain) (rule h)
  with h n show ?thesis by blast
qed

text \<open>
  The first part of \<open>1000000000000000000000.0.0.0\<close> is \<open>10^21\<close>, printed as
  \<open>1e+21\<close>; a second pass reads the \<open>1\<close> before the \<open>e\<close> and returns
  \<open>1.0.0.0\<close>.
\<close>

theorem normalizeIp_not_idempotent_counterexample:
  "normalizeIp (str ''1000000000000000000000.0.0.0'') = str ''1e+21.0.0.0'' \<and>
   normalizeIp (normalizeIp (str ''1000000000000000000000.0.0.0'')) = str ''1.0.0.0''"
proof -
  have a: "normalizeIp (str ''1000000000000000000000.0.0.0'') = str ''1e+21.0.0.0''"
    by (simp add: js_eval)
  have b: "normalizeIp (str ''1e+21.0.0.0'') = str ''1.0.0.0''"
    by (simp add: js_eval)
  from a b show ?thesis by simp
qed

section \<open>The gateway's address check\<close>

lemma member_APPROVED_IPS:
  "y \<in> set APPROVED_IPS \<longleftrightarrow> y \<in> {str ''10.0.0.5'', str ''192.168.1.50''}"
  by (auto simp: APPROVED_IPS_def)

lemma violation_message:
  "startsWith (str ''CFG Policy Violation: IP '' @ rest) (str ''CFG Policy Violation'')"
  by (simp add: startsWith_def str_def)

lemma useSecureGateway_unapproved:
  assumes "normalizeIp targetIp \<notin> set APPROVED_IPS"
  shows "isPolicyViolation (useSecureGateway stringify seal targetIp data)"
  using assms
  by (simp add: useSecureGateway_def isPolicyViolation_def policyViolationError_def Let_def
      violation_message)

lemma useSecureGateway_approved:
  assumes "normalizeIp targetIp \<in> set APPROVED_IPS"
  shows "useSecureGateway stringify seal targetIp data =
           (case encryptData stringify seal data of
              None \<Rightarrow> None
            | Some (Inl e) \<Rightarrow> Some (Inl e)
            | Some (Inr encryptedPayload) \<Rightarrow>
                Some (Inr \<lparr>success = True, destination = normalizeIp targetIp,
                           payload = encryptedPayload, verified = True\<rparr>))"
  using assms by (simp add: useSecureGateway_def Let_def)

lemma useSecureGateway_approved_violation:
  assumes "normalizeIp targetIp \<in> set APPROVED_IPS"
  shows "isPolicyViolation (useSecureGateway stringify seal targetIp data)
           \<longleftrightarrow> isPolicyViolation (encryptData stringify seal data)"
  by (simp add: useSecureGateway_approved [OF assms] isPolicyViolation_def
      split: option.splits sum.splits)

text \<open>
  C1 (amended): for every target address and payload the gateway rejects with a
  \<open>CFG Policy Violation\<close> error if and only if the normalized address is not one of
  \<open>10.0.0.5\<close> and \<open>192.168.1.50\<close>, or \<open>encryptData\<close> itself rejects with such an
  error (which it passes on from \<open>JSON.stringify(data)\<close>, that is from the payload's
  own \<open>toJSON\<close> or getter). When the address is one of the two, \<open>JSON.stringify(data)\<close>
  returns a text and the encryption of the text returns a payload, the call returns
  \<open>success = true\<close>, \<open>verified = true\<close>, the normalized address as destination and
  that payload.
\<close>

theorem useSecureGateway_policy:
  "(isPolicyViolation (useSecureGateway stringify seal targetIp data)
      \<longleftrightarrow> normalizeIp targetIp \<notin> {str ''10.0.0.5'', str ''192.168.1.50''} \<or>
          isPolicyViolation (encryptData stringify seal data)) \<and>
   (normalizeIp targetIp \<in> {str ''10.0.0.5'', str ''192.168.1.50''} \<and>
    stringify data = Text plaintext \<and> seal plaintext = Inr encryptedPayload \<longrightarrow>
      useSecureGateway stringify seal targetIp data =
        Some (Inr \<lparr>success = True, destination = normalizeIp targetIp,
                   payload = encryptedPayload, verified = True\<rparr>))"
proof (cases "normalizeIp targetIp \<in> set APPROVED_IPS")
  case True
  then have m: "normalizeIp targetIp \<in> {str ''10.0.0.5'', str ''192.168.1.50''}"
    by (simp add: member_APPROVED_IPS)
  have v: "isPolicyViolation (useSecureGateway stringify seal targetIp data)
           \<longleftrightarrow> isPolicyViolation (encryptData stringify seal data)"
    using True by (rule useSecureGateway_approved_violation)
  have r: "stringify data = Text plaintext \<and> seal plaintext = Inr encryptedPayload \<longrightarrow>
      useSecureGateway stringify seal targetIp data =
        Some (Inr \<lparr>success = True, destination = normalizeIp targetIp,
                   payload = encryptedPayload, verified = True\<rparr>)"
    by (simp add: useSecureGateway_approved [OF True] encryptData_def)
  from m v r show ?thesis by blast
next
  case False
  then have m: "normalizeIp targetIp \<notin> {str ''10.0.0.5'', str ''192.168.1.50''}"
    by (simp add: member_APPROVED_IPS)
  have "isPolicyViolation (useSecureGateway stringify seal targetIp data)"
    using False by (rule useSecureGateway_unapproved)
  then show ?thesis using m by blast
qed

theorem useSecureGateway_policy_witness:
  "isPolicyViolation (useSecureGateway stringifySample sealAsText (str ''0xC0A80163'') ArrayOneTwo) \<and>
   useSecureGateway stringifySample sealAsText (str ''167772165'') ArrayOneTwo =
     Some (Inr \<lparr>success = True, destination = str ''10.0.0.5'', payload = str ''[1,2]'',
                verified = True\<rparr>)"
proof -
  have n1: "normalizeIp (str ''0xC0A80163'') = str ''192.168.1.99''"
    by (simp add: js_eval)
  have n2: "normalizeIp (str ''167772165'') = str ''10.0.0.5''"
    by (simp add: js_eval)
  have out: "normalizeIp (str ''0xC0A80163'') \<notin> {str ''10.0.0.5'', str ''192.168.1.50''}"
    unfolding n1 by (simp add: str_def)
  have inn: "normalizeIp (str ''167772165'') \<in> {str ''10.0.0.5'', str ''192.168.1.50''} \<and>
      stringifySample ArrayOneTwo = Text (str ''[1,2]'') \<and>
      sealAsText (str ''[1,2]'') = Inr (str ''[1,2]'')"
    unfolding n2 by (simp add: stringifySample_def sealAsText_def)
  have a: "isPolicyViolation
      (useSecureGateway stringifySample sealAsText (str ''0xC0A80163'') ArrayOneTwo)"
    using useSecureGateway_policy
      [of stringifySample sealAsText "str ''0xC0A80163''" ArrayOneTwo] out
    by blast
  have "useSecureGateway stringifySample sealAsText (str ''167772165'') ArrayOneTwo =
        Some (Inr \<lparr>success = True, destination = normalizeIp (str ''167772165''),
                   payload = str ''[1,2]'', verified = True\<rparr>)"
    using useSecureGateway_policy
      [of stringifySample sealAsText "str ''167772165''" ArrayOneTwo "str ''[1,2]''" "str ''[1,2]''"]
      inn
    by blast
  then have b: "useSecureGateway stringifySample sealAsText (str ''167772165'') ArrayOneTwo =
     Some (Inr \<lparr>success = True, destination = str ''10.0.0.5'', payload = str ''[1,2]'',
                verified = True\<rparr>)"
    by (simp add: n2)
  from a b show ?thesis by blast
qed

text \<open>
  With an approved address the call does not return a result when the payload holds
  a BigInt or is \<open>undefined\<close>: it rejects with the TypeError of \<open>JSON.stringify\<close> or
  of \<open>cipher.update\<close>. And it rejects with a \<open>CFG Policy Violation\<close> error, although
  the address is approved, when the payload's \<open>toJSON\<close> throws one.
\<close>

theorem useSecureGateway_payload_counterexample:
  "normalizeIp (str ''10.0.0.5'') \<in> {str ''10.0.0.5'', str ''192.168.1.50''} \<and>
   useSecureGateway stringifySample sealAsText (str ''10.0.0.5'') BigIntAmount
     = Some (Inl TypeError) \<and>
   useSecureGateway stringifySample sealAsText (str ''10.0.0.5'') UndefinedPayload
     = Some (Inl TypeError) \<and>
   isPolicyViolation (useSecureGateway stringifySample sealAsText (str ''10.0.0.5'') ThrowingToJSON)"
proof -
  have n: "normalizeIp (str ''10.0.0.5'') = str ''10.0.0.5''"
    by (simp add: js_eval)
  have m: "normalizeIp (str ''10.0.0.5'') \<in> set APPROVED_IPS"
    by (simp add: n member_APPROVED_IPS)
  have a: "useSecureGateway stringifySample sealAsText (str ''10.0.0.5'') BigIntAmount
      = Some (Inl TypeError)"
    by (simp add: useSecureGateway_approved [OF m] encryptData_def stringifySample_def)
  have b: "useSecureGateway stringifySample sealAsText (str ''10.0.0.5'') UndefinedPayload
      = Some (Inl TypeError)"
    by (simp add: useSecureGateway_approved [OF m] encryptData_def stringifySample_def)
  have "useSecureGateway stringifySample sealAsText (str ''10.0.0.5'') ThrowingToJSON
      = Some (Inl (Error (str ''CFG Policy Violation: forged'')))"
    by (simp add: useSecureGateway_approved [OF m] encryptData_def stringifySample_def)
  then have c: "isPolicyViolation
      (useSecureGateway stringifySample sealAsText (str ''10.0.0.5'') ThrowingToJSON)"
    by (simp add: isPolicyViolation_def policyViolationError_def startsWith_def str_def)
  from a b c show ?thesis by (simp add: n)
qed

section \<open>The harness\<close>

lemma forLoop_length:
  "length (fst (forLoop count i body g attacks)) = length attacks + (count - i)"
proof (induction count i body g attacks rule: forLoop.induct)
  case (1 count i body g attacks)
  show ?case
  proof (cases "i < count")
    case True
    obtain a g' where b: "body i g = (a, g')" by (cases "body i g")
    from True b "1.IH" [OF True b [symmetric]] show ?thesis
      by (simp add: forLoop.simps [of count i])
  next
    case False
    then show ?thesis by (simp add: forLoop.simps [of count i])
  qed
qed

lemma generate_lengths:
  "length (fst (generateDirectIPAttacks n g)) = n"
  "length (fst (generateObfuscationAttacks n g)) = n"
  "length (fst (generateMalformedAttacks n g)) = n"
  "length (fst (generateEncryptionAttacks n g)) = n"
  "length (fst (generateComplexityAttacks n g)) = n"
  by (simp_all add: generateDirectIPAttacks_def generateObfuscationAttacks_def
      generateMalformedAttacks_def generateEncryptionAttacks_def
      generateComplexityAttacks_def Let_def forLoop_length)

lemma generateAttackVectors_length:
  "length (fst (generateAttackVectors g)) = 100"
proof -
  obtain a1 g1 where 1: "generateDirectIPAttacks 10 g = (a1, g1)"
    by (cases "generateDirectIPAttacks 10 g")
  obtain a2 g2 where 2: "generateObfuscationAttacks 30 g1 = (a2, g2)"
    by (cases "generateObfuscationAttacks 30 g1")
  obtain a3 g3 where 3: "generateMalformedAttacks 20 g2 = (a3, g3)"
    by (cases "generateMalformedAttacks 20 g2")
  obtain a4 g4 where 4: "generateEncryptionAttacks 20 g3 = (a4, g4)"
    by (cases "generateEncryptionAttacks 20 g3")
  obtain a5 g5 where 5: "generateComplexityAttacks 20 g4 = (a5, g5)"
    by (cases "generateComplexityAttacks 20 g4")
  have l: "length a1 = 10" "length a2 = 30" "length a3 = 20" "length a4 = 20" "length a5 = 20"
    using generate_lengths(1) [of 10 g] generate_lengths(2) [of 30 g1]
      generate_lengths(3) [of 20 g2] generate_lengths(4) [of 20 g3]
      generate_lengths(5) [of 20 g4]
    by (simp_all add: 1 2 3 4 5)
  show ?thesis
    by (simp add: generateAttackVectors_def TEST_CONFIG_def 1 2 3 4 5 l)
qed

text \<open>
  The double product is rounded before the floor is taken: for the draw \<open>0.6\<close> (the
  double \<open>5404319552844595 / 2^53\<close>) \<open>Math.floor(r * 5)\<close> is 3, one above the floor of
  the exact product.
\<close>

lemma floorOfProduct_rounds:
  "floorOfProduct (fst (random (sconst (5404319552844595, 53)))) 5 = Finite 3 \<and>
   \<lfloor>drawValue (fst (random (sconst (5404319552844595, 53)))) * 5\<rfloor> = 2"
proof -
  have r: "fst (random (sconst (5404319552844595, 53))) = (5404319552844595, 53)"
    by (simp add: random_def)
  have b: "bitLength (5404319552844595 * 5) = 55"
    by (simp add: bitLength.simps)
  have "roundToDouble (5404319552844595 * 5) = Some 27021597764222976"
    unfolding roundToDouble_def b by (simp add: Let_def)
  then have f: "floorOfProduct (5404319552844595, 53) 5 = Finite 3"
    by (simp add: floorOfProduct_def)
  have g: "\<lfloor>drawValue (5404319552844595, 53) * 5\<rfloor> = 2"
    by (simp add: drawValue_def floor_eq_iff)
  from f g show ?thesis by (simp only: r simp_thms)
qed

lemma slice_prefix_length:
  "0 \<le> k \<Longrightarrow> int (length (arraySlice xs 0 k)) = min k (int (length xs))"
  by (auto simp: arraySlice_def Let_def min_def)

lemma slice_negative_length:
  "k < 0 \<Longrightarrow> int (length (arraySlice xs 0 k)) = max (int (length xs) + k) 0"
  by (auto simp: arraySlice_def Let_def max_def)

text \<open>
  C8 (amended): the RedTeamer generates exactly the sum of the configured counts,
  10 + 30 + 20 + 20 + 20 = 100 vectors, whatever the random draws; and for every
  count \<open>k \<ge> 0\<close>, \<open>getRandomSubset(k)\<close> returns \<open>min(k, number of vectors)\<close> vectors
  (the engine's sort keeps the length of the array).
\<close>

theorem redTeamer_vector_count:
  assumes "length (shuffled (fst (generateAttackVectors g))) = length (fst (generateAttackVectors g))"
    and "0 \<le> k"
  shows "length (fst (generateAttackVectors g))
           = directIPs (scenarios TEST_CONFIG) + obfuscatedIPs (scenarios TEST_CONFIG)
             + malformedIPs (scenarios TEST_CONFIG) + encryptionTests (scenarios TEST_CONFIG)
             + complexityTests (scenarios TEST_CONFIG) \<and>
         length (fst (generateAttackVectors g)) = 100 \<and>
         int (length (getRandomSubset shuffled (fst (generateAttackVectors g)) k))
           = min k (int (length (fst (generateAttackVectors g))))"
  using assms
  by (simp add: generateAttackVectors_length getRandomSubset_def slice_prefix_length TEST_CONFIG_def)

theorem redTeamer_vector_count_witness:
  "length (fst (generateAttackVectors (sconst (0, 0)))) = 100 \<and>
   length (getRandomSubset rev (fst (generateAttackVectors (sconst (0, 0)))) 10) = 10 \<and>
   length (getRandomSubset rev (fst (generateAttackVectors (sconst (0, 0)))) 9999) = 100"
proof -
  have h: "length (rev (fst (generateAttackVectors (sconst (0, 0)))))
      = length (fst (generateAttackVectors (sconst (0, 0))))"
    by simp
  have a: "(0::int) \<le> 10" and b: "(0::int) \<le> 9999" by simp_all
  from redTeamer_vector_count [of rev "sconst (0, 0)" 10, OF h a]
    redTeamer_vector_count [of rev "sconst (0, 0)" 9999, OF h b]
  show ?thesis by (simp add: generateAttackVectors_length)
qed

text \<open>
  For a negative count \<open>slice(0, count)\<close> counts from the end of the array:
  \<open>getRandomSubset(-1)\<close> returns 99 vectors, and \<open>min(-1, 100)\<close> is \<open>-1\<close>.
\<close>

theorem getRandomSubset_negative_counterexample:
  "length (getRandomSubset id (fst (generateAttackVectors (sconst (0, 0)))) (- 1)) = 99 \<and>
   min (- 1) (int (length (fst (generateAttackVectors (sconst (0, 0)))))) = - 1"
proof -
  have "int (length (getRandomSubset id (fst (generateAttackVectors (sconst (0, 0)))) (- 1))) = 99"
    by (simp add: getRandomSubset_def slice_negative_length generateAttackVectors_length)
  then show ?thesis by (simp add: generateAttackVectors_length)
qed

subsection \<open>Tasks\<close>

lemma resume_runTask: "runTask (fst (resume t s)) (snd (resume t s)) = runTask t s"
  by (cases t) (simp_all add: resume_def)

lemma canYield_resume: "canYield (fst (resume t s)) r \<Longrightarrow> canYield t r"
  by (cases t) (auto simp: resume_def intro: canYield.segment)

lemma canYield_runTask: "canYield t (fst (runTask t s))"
proof (induction t arbitrary: s)
  case (Resolved r)
  show ?case by (simp add: canYield.resolved)
next
  case (Segment u k)
  have "canYield (k s) (fst (runTask (k s) (u s)))"
    by (rule Segment.IH) simp
  then show ?case by (simp add: canYield.segment)
qed

lemma resumeAll_nil: "resumeAll js [] s = ([], s)"
  by (induction js) simp_all

text \<open>
  What a started or resumed call can return, the call itself can return: the
  relation between the contexts of a batch and the tasks of their calls.
\<close>

lemma startAll_yields:
  "list_all2 (\<lambda>c t. \<forall>r. canYield t r \<longrightarrow> canYield (vrfy c) r) cs (fst (startAll vrfy cs s))"
proof (induction cs arbitrary: s)
  case Nil
  show ?case by simp
next
  case (Cons c cs)
  show ?case
    using Cons.IH [of "snd (resume (vrfy c) s)"] canYield_resume [of "vrfy c" s]
    by (simp add: case_prod_beta)
qed

lemma resumeAll_yields:
  assumes "list_all2 (\<lambda>c t. \<forall>r. canYield t r \<longrightarrow> canYield (vrfy c) r) cs ts"
  shows "list_all2 (\<lambda>c t. \<forall>r. canYield t r \<longrightarrow> canYield (vrfy c) r) cs (fst (resumeAll js ts s))"
  using assms
proof (induction js arbitrary: ts s)
  case Nil
  then show ?case by simp
next
  case (Cons j js)
  show ?case
  proof (cases "j < length ts")
    case False
    then show ?thesis using Cons.IH [OF Cons.prems] by simp
  next
    case True
    let ?t = "fst (resume (ts ! j) s)"
    have lc: "j < length cs" using True Cons.prems by (simp add: list_all2_lengthD)
    have o: "\<forall>r. canYield (ts ! j) r \<longrightarrow> canYield (vrfy (cs ! j)) r"
      using Cons.prems True by (simp add: list_all2_conv_all_nth)
    have n: "\<forall>r. canYield ?t r \<longrightarrow> canYield (vrfy (cs ! j)) r"
      using o canYield_resume [of "ts ! j" s] by blast
    have "list_all2 (\<lambda>c t. \<forall>r. canYield t r \<longrightarrow> canYield (vrfy c) r) (cs[j := cs ! j]) (ts[j := ?t])"
      using Cons.prems n by (rule list_all2_update_cong)
    then have "list_all2 (\<lambda>c t. \<forall>r. canYield t r \<longrightarrow> canYield (vrfy c) r) cs (ts[j := ?t])"
      by simp
    from Cons.IH [OF this, of "snd (resume (ts ! j) s)"] True show ?thesis
      by (simp add: case_prod_beta)
  qed
qed

lemma settleAll_yields:
  assumes "list_all2 (\<lambda>c t. \<forall>r. canYield t r \<longrightarrow> canYield (vrfy c) r) cs ts"
  shows "list_all2 (\<lambda>c r. canYield (vrfy c) r) cs (fst (settleAll ts s))"
  using assms
proof (induction cs ts arbitrary: s rule: list_all2_induct)
  case Nil
  show ?case by simp
next
  case (Cons c cs t ts)
  have "canYield (vrfy c) (fst (runTask t s))"
    using Cons.hyps(1) canYield_runTask [of t s] by blast
  then show ?case
    using Cons.IH [of "snd (runTask t s)"] by (simp add: case_prod_beta)
qed

lemma promiseAll_yields:
  "list_all2 (\<lambda>c r. canYield (vrfy c) r) batch (fst (promiseAll vrfy js batch s))"
proof -
  have "list_all2 (\<lambda>c t. \<forall>r. canYield t r \<longrightarrow> canYield (vrfy c) r) batch
          (fst (resumeAll js (fst (startAll vrfy batch s)) (snd (startAll vrfy batch s))))"
    using startAll_yields by (rule resumeAll_yields)
  then show ?thesis
    by (simp add: promiseAll_def case_prod_beta settleAll_yields)
qed

subsection \<open>Batched dispatch\<close>

lemma slice_window:
  assumes "0 \<le> i" and "0 < b"
  shows "arraySlice xs i (i + b) = take (nat b) (drop (nat i) xs)"
proof (cases "i < int (length xs)")
  case True
  have "nat (min (i + b) (int (length xs)) - i) = min (nat b) (length (drop (nat i) xs))"
    using assms True by (auto simp: min_def)
  then have "arraySlice xs i (i + b) = take (min (nat b) (length (drop (nat i) xs))) (drop (nat i) xs)"
    using assms True by (simp add: arraySlice_def Let_def)
  then show ?thesis by (simp add: min_def)
next
  case False
  then show ?thesis using assms by (simp add: arraySlice_def Let_def)
qed

text \<open>
  For a positive bound the loop returns, with one result per context from the
  index on, each a value the call on its context can return.
\<close>

lemma runBatches_yields:
  assumes "0 < b" and "0 \<le> i"
  shows "\<exists>res s'. runBatches vrfy resumptions contexts b i s results = Some (results @ res, s') \<and>
           list_all2 (\<lambda>c r. canYield (vrfy c) r) (drop (nat i) contexts) res"
  using assms(2)
proof (induction "length contexts - nat i" arbitrary: i s results rule: less_induct)
  case less
  show ?case
  proof (cases "i < int (length contexts)")
    case False
    then have "drop (nat i) contexts = []" using less.prems by simp
    with False show ?thesis by (subst runBatches.simps) simp
  next
    case True
    let ?rest = "drop (nat i) contexts"
    let ?batch = "take (nat b) ?rest"
    obtain rs s1 where v: "promiseAll vrfy (resumptions i) ?batch s = (rs, s1)"
      by (cases "promiseAll vrfy (resumptions i) ?batch s")
    have y: "list_all2 (\<lambda>c r. canYield (vrfy c) r) ?batch rs"
      using promiseAll_yields [of vrfy ?batch "resumptions i" s] by (simp add: v)
    have sl: "arraySlice contexts i (i + b) = ?batch"
      using less.prems assms(1) by (rule slice_window)
    have dec: "length contexts - nat (i + b) < length contexts - nat i"
      using True less.prems assms(1) by auto
    have nonneg: "0 \<le> i + b" using less.prems assms(1) by simp
    have d: "drop (nat (i + b)) contexts = drop (nat b) ?rest"
      using less.prems assms(1) by (simp add: nat_add_distrib add.commute)
    have step: "runBatches vrfy resumptions contexts b i s results
        = runBatches vrfy resumptions contexts b (i + b) s1 (results @ rs)"
      using True by (subst runBatches.simps) (simp add: sl v)
    from less.hyps [OF dec nonneg, of s1 "results @ rs"]
    obtain res s' where
      r: "runBatches vrfy resumptions contexts b (i + b) s1 (results @ rs) = Some ((results @ rs) @ res, s')"
      and l: "list_all2 (\<lambda>c r. canYield (vrfy c) r) (drop (nat b) ?rest) res"
      by (auto simp: d)
    have "list_all2 (\<lambda>c r. canYield (vrfy c) r) (?batch @ drop (nat b) ?rest) (rs @ res)"
      using y l by (rule list_all2_appendI)
    then have "list_all2 (\<lambda>c r. canYield (vrfy c) r) ?rest (rs @ res)"
      by (simp only: append_take_drop_id)
    then show ?thesis using step r by simp
  qed
qed

subsection \<open>When the batches are sequential\<close>

lemma verifyInTurn_append:
  "verifyInTurn vrfy (xs @ ys) s =
     (fst (verifyInTurn vrfy xs s) @ fst (verifyInTurn vrfy ys (snd (verifyInTurn vrfy xs s))),
      snd (verifyInTurn vrfy ys (snd (verifyInTurn vrfy xs s))))"
  by (induction xs arbitrary: s) (simp_all add: case_prod_beta)

lemma sequentialVerify_fold:
  "foldl (\<lambda>acc c. case runTask (vrfy c) (snd acc) of (r, s') \<Rightarrow> (fst acc @ [r], s')) (rs, s) cs
     = (rs @ fst (verifyInTurn vrfy cs s), snd (verifyInTurn vrfy cs s))"
  by (induction cs arbitrary: rs s) (simp_all add: case_prod_beta)

lemma sequentialVerify_verifyInTurn: "sequentialVerify vrfy cs s = verifyInTurn vrfy cs s"
  by (simp add: sequentialVerify_def sequentialVerify_fold)

lemma verifyInTurn_yields:
  "list_all2 (\<lambda>c r. canYield (vrfy c) r) cs (fst (verifyInTurn vrfy cs s))"
  by (induction cs arbitrary: s) (simp_all add: case_prod_beta canYield_runTask)

text \<open>Results that depend on the context alone are those of sequential mapping.\<close>

lemma yields_unique:
  assumes "resultByContext vrfy"
    and "list_all2 (\<lambda>c r. canYield (vrfy c) r) cs rs"
    and "list_all2 (\<lambda>c r. canYield (vrfy c) r) cs rs'"
  shows "rs = rs'"
proof (rule nth_equalityI)
  show l: "length rs = length rs'"
    using assms(2,3) by (simp add: list_all2_lengthD [symmetric])
  fix i
  assume i: "i < length rs"
  then have "canYield (vrfy (cs ! i)) (rs ! i)" "canYield (vrfy (cs ! i)) (rs' ! i)"
    using assms(2,3) l by (simp_all add: list_all2_conv_all_nth)
  with assms(1) show "rs ! i = rs' ! i"
    unfolding resultByContext_def by blast
qed

text \<open>A batch of one call: whatever the resumptions, the call runs as if awaited alone.\<close>

lemma resumeAll_single:
  "\<exists>t' s'. resumeAll js [t] s = ([t'], s') \<and> runTask t' s' = runTask t s"
proof (induction js arbitrary: t s)
  case Nil
  show ?case by simp
next
  case (Cons j js)
  show ?case
  proof (cases "j = 0")
    case False
    then show ?thesis using Cons.IH [of t s] by simp
  next
    case True
    from Cons.IH [of "fst (resume t s)" "snd (resume t s)"]
    show ?thesis using True by (simp add: case_prod_beta resume_runTask)
  qed
qed

lemma promiseAll_single: "promiseAll vrfy js [c] s = verifyInTurn vrfy [c] s"
proof -
  let ?t = "fst (resume (vrfy c) s)" and ?s = "snd (resume (vrfy c) s)"
  obtain t' s' where r: "resumeAll js [?t] ?s = ([t'], s')" and e: "runTask t' s' = runTask ?t ?s"
    using resumeAll_single [of js ?t ?s] by blast
  show ?thesis
    by (simp add: promiseAll_def case_prod_beta r e resume_runTask)
qed

lemma promiseAll_nil: "promiseAll vrfy js [] s = verifyInTurn vrfy [] s"
  by (simp add: promiseAll_def resumeAll_nil)

lemma promiseAll_at_most_one:
  assumes "length batch \<le> 1"
  shows "promiseAll vrfy js batch s = verifyInTurn vrfy batch s"
proof (cases batch)
  case Nil
  then show ?thesis by (simp only: promiseAll_nil)
next
  case (Cons c cs)
  have "cs = []" using assms unfolding Cons by simp
  with Cons show ?thesis by (simp only: promiseAll_single)
qed

text \<open>A verifier that never suspends: every call has returned when the next is made.\<close>

lemma startAll_neverSuspends:
  assumes "neverSuspends vrfy"
  shows "startAll vrfy cs s
           = (map Resolved (fst (verifyInTurn vrfy cs s)), snd (verifyInTurn vrfy cs s))"
proof (induction cs arbitrary: s)
  case Nil
  show ?case by simp
next
  case (Cons c cs)
  obtain r where f: "fst (resume (vrfy c) s) = Resolved r"
    using assms by (auto simp: neverSuspends_def)
  have "runTask (vrfy c) s = runTask (Resolved r) (snd (resume (vrfy c) s))"
    using resume_runTask [of "vrfy c" s] by (simp add: f)
  then have rt: "runTask (vrfy c) s = (r, snd (resume (vrfy c) s))" by simp
  show ?case
    by (simp add: case_prod_beta f rt Cons.IH)
qed

lemma resumeAll_resolved: "resumeAll js (map Resolved rs) s = (map Resolved rs, s)"
proof (induction js)
  case Nil
  show ?case by simp
next
  case (Cons j js)
  show ?case
  proof (cases "j < length rs")
    case False
    then show ?thesis using Cons.IH by simp
  next
    case True
    have r: "resume (map Resolved rs ! j) s = (Resolved (rs ! j), s)"
      using True by (simp add: resume_def)
    have u: "(map Resolved rs)[j := Resolved (rs ! j)] = map Resolved rs"
      using True by (simp add: list_eq_iff_nth_eq nth_list_update)
    have "resumeAll (j # js) (map Resolved rs) s
        = resumeAll js ((map Resolved rs)[j := Resolved (rs ! j)]) s"
      using True by (simp only: resumeAll.simps length_map if_True r prod.case)
    then show ?thesis by (simp only: u Cons.IH)
  qed
qed

lemma settleAll_resolved: "settleAll (map Resolved rs) s = (rs, s)"
  by (induction rs) simp_all

lemma promiseAll_neverSuspends:
  assumes "neverSuspends vrfy"
  shows "promiseAll vrfy js batch s = verifyInTurn vrfy batch s"
  by (simp add: promiseAll_def startAll_neverSuspends [OF assms] resumeAll_resolved
      settleAll_resolved)

lemma runBatches_sequential:
  assumes "0 < b" and "0 \<le> i" and "b = 1 \<or> neverSuspends vrfy"
  shows "runBatches vrfy resumptions contexts b i s results =
           Some (results @ fst (verifyInTurn vrfy (drop (nat i) contexts) s),
                 snd (verifyInTurn vrfy (drop (nat i) contexts) s))"
  using assms(2)
proof (induction "length contexts - nat i" arbitrary: i s results rule: less_induct)
  case less
  show ?case
  proof (cases "i < int (length contexts)")
    case False
    then have "drop (nat i) contexts = []" using less.prems by simp
    with False show ?thesis by (subst runBatches.simps) simp
  next
    case True
    let ?rest = "drop (nat i) contexts"
    let ?batch = "take (nat b) ?rest"
    have p: "promiseAll vrfy (resumptions i) ?batch s = verifyInTurn vrfy ?batch s"
      using assms(3)
    proof
      assume "b = 1"
      then have "length ?batch \<le> 1" by simp
      then show ?thesis by (rule promiseAll_at_most_one)
    next
      assume "neverSuspends vrfy"
      then show ?thesis by (rule promiseAll_neverSuspends)
    qed
    obtain rs s1 where v: "verifyInTurn vrfy ?batch s = (rs, s1)"
      by (cases "verifyInTurn vrfy ?batch s")
    have sl: "arraySlice contexts i (i + b) = ?batch"
      using less.prems assms(1) by (rule slice_window)
    have dec: "length contexts - nat (i + b) < length contexts - nat i"
      using True less.prems assms(1) by auto
    have nonneg: "0 \<le> i + b" using less.prems assms(1) by simp
    have d: "drop (nat (i + b)) contexts = drop (nat b) ?rest"
      using less.prems assms(1) by (simp add: nat_add_distrib add.commute)
    have step: "runBatches vrfy resumptions contexts b i s results
        = runBatches vrfy resumptions contexts b (i + b) s1 (results @ rs)"
      using True by (subst runBatches.simps) (simp add: sl p v)
    have split: "?rest = ?batch @ drop (nat b) ?rest"
      by (rule append_take_drop_id [symmetric])
    have "verifyInTurn vrfy ?rest s
        = (rs @ fst (verifyInTurn vrfy (drop (nat b) ?rest) s1),
           snd (verifyInTurn vrfy (drop (nat b) ?rest) s1))"
      by (subst split) (simp add: verifyInTurn_append v del: append_take_drop_id)
    then show ?thesis
      using less.hyps [OF dec nonneg, of s1 "results @ rs"] by (simp add: step d)
  qed
qed

text \<open>
  C10 (amended): for every list of contexts, every positive concurrency bound and
  every order in which the event loop resumes the calls of a batch,
  \<open>runConcurrentTests\<close> returns exactly one result per context, in the order of the
  contexts, the entry at each index being a value returned by the call of \<open>verify\<close>
  on the context at that index. The results and the verifier's state are those of
  sequential mapping when the bound is 1, or when no call of \<open>verify\<close> suspends; the
  results are those of sequential mapping when the result of a call depends on its
  context alone.
\<close>

theorem runConcurrentTests_batched:
  assumes "0 < batchSize"
  shows "\<exists>results s'.
           runConcurrentTests vrfy resumptions contexts batchSize s = Some (results, s') \<and>
           length results = length contexts \<and>
           (\<forall>i < length contexts. canYield (vrfy (contexts ! i)) (results ! i)) \<and>
           (batchSize = 1 \<or> neverSuspends vrfy \<longrightarrow>
              (results, s') = sequentialVerify vrfy contexts s) \<and>
           (resultByContext vrfy \<longrightarrow> results = fst (sequentialVerify vrfy contexts s))"
proof -
  from runBatches_yields [OF assms, of 0 vrfy resumptions contexts s "[]"]
  obtain results s' where
    r: "runConcurrentTests vrfy resumptions contexts batchSize s = Some (results, s')"
    and y: "list_all2 (\<lambda>c r. canYield (vrfy c) r) contexts results"
    by (auto simp: runConcurrentTests_def)
  have l: "length results = length contexts"
    using y by (simp add: list_all2_lengthD)
  have n: "\<forall>i < length contexts. canYield (vrfy (contexts ! i)) (results ! i)"
    using y by (simp add: list_all2_conv_all_nth)
  have q: "batchSize = 1 \<or> neverSuspends vrfy \<longrightarrow> (results, s') = sequentialVerify vrfy contexts s"
  proof
    assume c: "batchSize = 1 \<or> neverSuspends vrfy"
    have z: "(0::int) \<le> 0" by simp
    have "runConcurrentTests vrfy resumptions contexts batchSize s = Some (verifyInTurn vrfy contexts s)"
      using runBatches_sequential [OF assms z c, of resumptions contexts s "[]"]
      by (simp add: runConcurrentTests_def)
    then show "(results, s') = sequentialVerify vrfy contexts s"
      using r by (simp add: sequentialVerify_verifyInTurn)
  qed
  have u: "resultByContext vrfy \<longrightarrow> results = fst (sequentialVerify vrfy contexts s)"
  proof
    assume "resultByContext vrfy"
    then show "results = fst (sequentialVerify vrfy contexts s)"
      using y verifyInTurn_yields [of vrfy contexts s]
      unfolding sequentialVerify_verifyInTurn by (rule yields_unique)
  qed
  from r l n q u show ?thesis by blast
qed

theorem runConcurrentTests_batched_witness:
  "runConcurrentTests sharedListVerify (inTurn 1)
     [[MISSING_ENCRYPTION], [HIGH_COMPLEXITY], [UNAUTHORIZED_IP]] 1 []
     = Some ([[MISSING_ENCRYPTION], [HIGH_COMPLEXITY], [UNAUTHORIZED_IP]], [UNAUTHORIZED_IP]) \<and>
   runConcurrentTests (\<lambda>c. Resolved c) (inTurn 2)
     [MISSING_ENCRYPTION, HIGH_COMPLEXITY, UNAUTHORIZED_IP] 2 ()
     = Some ([MISSING_ENCRYPTION, HIGH_COMPLEXITY, UNAUTHORIZED_IP], ()) \<and>
   (\<exists>results s'.
      runConcurrentTests sharedListVerify (inTurn 2)
        [[MISSING_ENCRYPTION], [HIGH_COMPLEXITY], [UNAUTHORIZED_IP]] 2 []
        = Some (results, s') \<and>
      length results = 3 \<and> canYield (sharedListVerify [MISSING_ENCRYPTION]) (results ! 0)) \<and>
   map_option fst
     (runConcurrentTests countingVerify (inTurn 2)
        [MISSING_ENCRYPTION, HIGH_COMPLEXITY, UNAUTHORIZED_IP] 2 0)
     = Some [MISSING_ENCRYPTION, HIGH_COMPLEXITY, UNAUTHORIZED_IP]"
proof -
  have h1: "(0::int) < 1" and h2: "(0::int) < 2" by simp_all
  have ns: "neverSuspends (\<lambda>c. Resolved c :: (unit, ViolationType) task)"
    by (simp add: neverSuspends_def resume_def)
  have a: "runConcurrentTests sharedListVerify (inTurn 1)
      [[MISSING_ENCRYPTION], [HIGH_COMPLEXITY], [UNAUTHORIZED_IP]] 1 []
      = Some ([[MISSING_ENCRYPTION], [HIGH_COMPLEXITY], [UNAUTHORIZED_IP]], [UNAUTHORIZED_IP])"
    using runConcurrentTests_batched
      [OF h1, of sharedListVerify "inTurn 1"
         "[[MISSING_ENCRYPTION], [HIGH_COMPLEXITY], [UNAUTHORIZED_IP]]" "[]"]
    by (auto simp: sequentialVerify_def sharedListVerify_def)
  have b: "runConcurrentTests (\<lambda>c. Resolved c) (inTurn 2)
      [MISSING_ENCRYPTION, HIGH_COMPLEXITY, UNAUTHORIZED_IP] 2 ()
      = Some ([MISSING_ENCRYPTION, HIGH_COMPLEXITY, UNAUTHORIZED_IP], ())"
    using runConcurrentTests_batched
      [OF h2, of "\<lambda>c. Resolved c" "inTurn 2"
         "[MISSING_ENCRYPTION, HIGH_COMPLEXITY, UNAUTHORIZED_IP]" "()"] ns
    by (auto simp: sequentialVerify_def)
  have c: "\<exists>results s'.
      runConcurrentTests sharedListVerify (inTurn 2)
        [[MISSING_ENCRYPTION], [HIGH_COMPLEXITY], [UNAUTHORIZED_IP]] 2 []
        = Some (results, s') \<and>
      length results = 3 \<and> canYield (sharedListVerify [MISSING_ENCRYPTION]) (results ! 0)"
  proof -
    from runConcurrentTests_batched
      [OF h2, of sharedListVerify "inTurn 2"
         "[[MISSING_ENCRYPTION], [HIGH_COMPLEXITY], [UNAUTHORIZED_IP]]" "[]"]
    obtain results s' where
      r: "runConcurrentTests sharedListVerify (inTurn 2)
            [[MISSING_ENCRYPTION], [HIGH_COMPLEXITY], [UNAUTHORIZED_IP]] 2 [] = Some (results, s')"
      and l: "length results
            = length [[MISSING_ENCRYPTION], [HIGH_COMPLEXITY], [UNAUTHORIZED_IP]]"
      and n: "\<forall>i < length [[MISSING_ENCRYPTION], [HIGH_COMPLEXITY], [UNAUTHORIZED_IP]].
            canYield
              (sharedListVerify ([[MISSING_ENCRYPTION], [HIGH_COMPLEXITY], [UNAUTHORIZED_IP]] ! i))
              (results ! i)"
      by blast
    from n have "canYield (sharedListVerify [MISSING_ENCRYPTION]) (results ! 0)"
      by auto
    with r l show ?thesis by simp
  qed
  have rc: "resultByContext (countingVerify :: ViolationType \<Rightarrow> (nat, ViolationType) task)"
    unfolding resultByContext_def countingVerify_def
    by (auto elim!: canYield_Segment canYield_Resolved)
  have d: "map_option fst
     (runConcurrentTests countingVerify (inTurn 2)
        [MISSING_ENCRYPTION, HIGH_COMPLEXITY, UNAUTHORIZED_IP] 2 0)
     = Some [MISSING_ENCRYPTION, HIGH_COMPLEXITY, UNAUTHORIZED_IP]"
  proof -
    from runConcurrentTests_batched
      [OF h2, of countingVerify "inTurn 2"
         "[MISSING_ENCRYPTION, HIGH_COMPLEXITY, UNAUTHORIZED_IP]" 0] rc
    obtain results s' where
      r: "runConcurrentTests countingVerify (inTurn 2)
            [MISSING_ENCRYPTION, HIGH_COMPLEXITY, UNAUTHORIZED_IP] 2 0 = Some (results, s')"
      and e: "results = fst (sequentialVerify countingVerify
            [MISSING_ENCRYPTION, HIGH_COMPLEXITY, UNAUTHORIZED_IP] 0)"
      by blast
    from e have "results = [MISSING_ENCRYPTION, HIGH_COMPLEXITY, UNAUTHORIZED_IP]"
      by (simp add: sequentialVerify_def countingVerify_def)
    with r show ?thesis by simp
  qed
  from a b c d show ?thesis by blast
qed

text \<open>
  With a bound of 2 and a verifier whose calls suspend and share the violation list,
  the two calls of a batch interleave: both are started before either is resumed, so
  the first call returns the violations of the second context, where sequential
  mapping returns those of the first.
\<close>

theorem runConcurrentTests_interleaving_counterexample:
  "runConcurrentTests sharedListVerify (inTurn 2) [[MISSING_ENCRYPTION], [HIGH_COMPLEXITY]] 2 []
     = Some ([[HIGH_COMPLEXITY], [HIGH_COMPLEXITY]], [HIGH_COMPLEXITY]) \<and>
   sequentialVerify sharedListVerify [[MISSING_ENCRYPTION], [HIGH_COMPLEXITY]] []
     = ([[MISSING_ENCRYPTION], [HIGH_COMPLEXITY]], [HIGH_COMPLEXITY])"
proof -
  have s: "arraySlice [[MISSING_ENCRYPTION], [HIGH_COMPLEXITY]] 0 (0 + 2)
      = [[MISSING_ENCRYPTION], [HIGH_COMPLEXITY]]"
    by (simp add: arraySlice_def)
  have p: "promiseAll sharedListVerify (inTurn 2 0) [[MISSING_ENCRYPTION], [HIGH_COMPLEXITY]] []
      = ([[HIGH_COMPLEXITY], [HIGH_COMPLEXITY]], [HIGH_COMPLEXITY])"
    by (simp add: promiseAll_def sharedListVerify_def resume_def inTurn_def upt_rec)
  have e: "runBatches sharedListVerify (inTurn 2) [[MISSING_ENCRYPTION], [HIGH_COMPLEXITY]] 2
        (0 + 2) [HIGH_COMPLEXITY] ([] @ [[HIGH_COMPLEXITY], [HIGH_COMPLEXITY]])
      = Some ([[HIGH_COMPLEXITY], [HIGH_COMPLEXITY]], [HIGH_COMPLEXITY])"
    by (subst runBatches.simps) simp
  have i: "(0::int) < int (length [[MISSING_ENCRYPTION], [HIGH_COMPLEXITY]])"
    by simp
  have "runBatches sharedListVerify (inTurn 2) [[MISSING_ENCRYPTION], [HIGH_COMPLEXITY]] 2 0 [] []
      = Some ([[HIGH_COMPLEXITY], [HIGH_COMPLEXITY]], [HIGH_COMPLEXITY])"
    by (subst runBatches.simps) (simp only: i if_True s p prod.case e)
  then show ?thesis
    by (simp add: runConcurrentTests_def sequentialVerify_def sharedListVerify_def)
qed

subsection \<open>The report and the exit code\<close>

lemma runFullSuite_result:
  assumes "0 < concurrency cfg"
  shows "\<exists>result s'.
     runFullSuite cfg architect resumptions shuffled vectors elapsed s = Some (result, s') \<and>
     pass1 result = VerifierStats.pass1 (getStats architect s') \<and>
     meetsTarget result = (targetPass1 cfg \<le> pass1 result)"
proof -
  let ?vs = "getRandomSubset shuffled vectors (iterations cfg)"
  have z: "(0::int) \<le> 0" by simp
  from runBatches_yields [OF assms z, of "verify architect" resumptions ?vs "reset architect s" "[]"]
  obtain results s1 where
    "runConcurrentTests (verify architect) resumptions ?vs (concurrency cfg) (reset architect s)
      = Some (results, s1)"
    by (auto simp: runConcurrentTests_def)
  then show ?thesis
    by (simp add: runFullSuite_def Let_def)
qed

lemma double_0_999_close: "\<bar>double_0_999 - 999 / 1000\<bar> < 1 / 2 ^ 53"
  by (simp add: double_0_999_def abs_if)

text \<open>
  C9 (amended): \<open>runFullSuite\<close> returns a report whose \<open>meetsTarget\<close> is true if and
  only if the pass@1 of the verifier's statistics is at least the configured target
  (the double written \<open>0.999\<close>); the process exits with code 0 if and only if
  \<open>meetsTarget\<close> is true and writing the report did not throw, and with code 1
  otherwise.
\<close>

theorem harness_meetsTarget_exit_code:
  "\<exists>result s'.
     runFullSuite TEST_CONFIG architect resumptions shuffled (fst (generateAttackVectors g)) elapsed s
       = Some (result, s') \<and>
     pass1 result = VerifierStats.pass1 (getStats architect s') \<and>
     meetsTarget result = (targetPass1 TEST_CONFIG \<le> pass1 result) \<and>
     targetPass1 TEST_CONFIG = double_0_999 \<and>
     \<bar>double_0_999 - 999 / 1000\<bar> < 1 / 2 ^ 53 \<and>
     runDirectly architect resumptions shuffled g elapsed fsError s
       = Some (if meetsTarget result \<and> fsError = None then 0 else 1)"
proof -
  have c: "0 < concurrency TEST_CONFIG" by (simp add: TEST_CONFIG_def)
  from runFullSuite_result
    [OF c, of architect resumptions shuffled "fst (generateAttackVectors g)" elapsed s]
  obtain result s' where
    r: "runFullSuite TEST_CONFIG architect resumptions shuffled (fst (generateAttackVectors g)) elapsed s
          = Some (result, s')"
    and p: "pass1 result = VerifierStats.pass1 (getStats architect s')"
    and m: "meetsTarget result = (targetPass1 TEST_CONFIG \<le> pass1 result)"
    by blast
  have t: "targetPass1 TEST_CONFIG = double_0_999" by (simp add: TEST_CONFIG_def)
  have e: "runDirectly architect resumptions shuffled g elapsed fsError s
       = Some (if meetsTarget result \<and> fsError = None then 0 else 1)"
    by (cases fsError) (simp_all add: runDirectly_def main_def r)
  from r p m t e double_0_999_close show ?thesis by blast
qed

text \<open>
  With a report that meets the target and a report file that cannot be written
  (\<open>fs.writeFileSync\<close> throws, as it does when the directory \<open>reports\<close> is missing)
  the process exits with code 1.
\<close>

theorem runner_exit_code_counterexample:
  "map_option (meetsTarget \<circ> fst)
     (runFullSuite TEST_CONFIG passingArchitect (inTurn 10) id
        (fst (generateAttackVectors (sconst (0, 0)))) 0 ())
     = Some True \<and>
   runDirectly passingArchitect (inTurn 10) id (sconst (0, 0)) 0 (Some (Error (str ''ENOENT''))) ()
     = Some 1"
proof -
  have c: "0 < concurrency TEST_CONFIG" by (simp add: TEST_CONFIG_def)
  from runFullSuite_result
    [OF c, of passingArchitect "inTurn 10" id "fst (generateAttackVectors (sconst (0, 0)))" 0 "()"]
  obtain result s' where
    r: "runFullSuite TEST_CONFIG passingArchitect (inTurn 10) id
          (fst (generateAttackVectors (sconst (0, 0)))) 0 ()
          = Some (result, s')"
    and p: "pass1 result = VerifierStats.pass1 (getStats passingArchitect s')"
    and m: "meetsTarget result = (targetPass1 TEST_CONFIG \<le> pass1 result)"
    by blast
  have "pass1 result = 1"
    by (simp add: p passingArchitect_def passingStats_def)
  then have mt: "meetsTarget result"
    by (simp add: m TEST_CONFIG_def double_0_999_def)
  have e: "runDirectly passingArchitect (inTurn 10) id (sconst (0, 0)) 0
      (Some (Error (str ''ENOENT''))) () = Some 1"
    by (simp add: runDirectly_def main_def r)
  from r mt e show ?thesis by simp
qed

end
